theory Spec2Isabelle
  imports Main
begin

section \<open>Python string primitives used by \<open>tools/copilot_scan.py\<close>\<close>

text \<open>
  A text is a \<open>string\<close>: the characters of the file as the scanner reads it.
  The character-sensitive primitives of Python (\<open>str.isspace\<close>, the regular
  expression classes \<open>\s\<close> and \<open>\w\<close>, \<open>str.lower\<close>, the line boundaries of
  \<open>str.splitlines\<close>) are given on the 7-bit range, where they are exact; the two
  non-ASCII suppression markers are the byte sequences found in the source file.
\<close>

abbreviation LF :: char where "LF \<equiv> CHR 0x0A"
abbreviation CR :: char where "CR \<equiv> CHR 0x0D"

definition is_space :: "char \<Rightarrow> bool" where
  \<comment> \<open>\<open>str.isspace\<close> and the class \<open>\s\<close>: TAB, LF, VT, FF, CR, FS, GS, RS, US, SPACE\<close>
  "is_space c \<longleftrightarrow>
     c \<in> set [CHR 0x09, LF, CHR 0x0B, CHR 0x0C, CR, CHR 0x1C, CHR 0x1D, CHR 0x1E, CHR 0x1F, CHR 0x20]"

definition is_linebreak :: "char \<Rightarrow> bool" where
  \<comment> \<open>the line boundaries of \<open>str.splitlines\<close>: LF, CR, VT, FF, FS, GS, RS\<close>
  "is_linebreak c \<longleftrightarrow> c \<in> set [LF, CR, CHR 0x0B, CHR 0x0C, CHR 0x1C, CHR 0x1D, CHR 0x1E]"

definition upper_letters :: string where
  "upper_letters = ''ABCDEFGHIJKLMNOPQRSTUVWXYZ''"

definition lower_letters :: string where
  "lower_letters = ''abcdefghijklmnopqrstuvwxyz''"

definition is_upper :: "char \<Rightarrow> bool" where
  "is_upper c \<longleftrightarrow> c \<in> set upper_letters"

definition is_lower :: "char \<Rightarrow> bool" where
  "is_lower c \<longleftrightarrow> c \<in> set lower_letters"

definition is_digit :: "char \<Rightarrow> bool" where
  "is_digit c \<longleftrightarrow> c \<in> set ''0123456789''"

definition is_ident_start :: "char \<Rightarrow> bool" where
  \<comment> \<open>the class \<open>[A-Za-z_]\<close>\<close>
  "is_ident_start c \<longleftrightarrow> is_upper c \<or> is_lower c \<or> c = CHR ''_''"

definition is_word :: "char \<Rightarrow> bool" where
  \<comment> \<open>the classes \<open>\w\<close> and \<open>[A-Za-z0-9_]\<close>\<close>
  "is_word c \<longleftrightarrow> is_upper c \<or> is_lower c \<or> is_digit c \<or> c = CHR ''_''"

definition not_eol :: "char \<Rightarrow> bool" where
  \<comment> \<open>the class \<open>[^\n\r]\<close>\<close>
  "not_eol c \<longleftrightarrow> c \<noteq> LF \<and> c \<noteq> CR"

definition lower_char :: "char \<Rightarrow> char" where
  \<comment> \<open>\<open>str.lower\<close> on one character: A..Z go to a..z, the rest stays\<close>
  "lower_char c = (case map_of (zip upper_letters lower_letters) c of Some d \<Rightarrow> d | None \<Rightarrow> c)"

definition lower :: "string \<Rightarrow> string" where
  "lower s = map lower_char s"

definition lstrip :: "string \<Rightarrow> string" where
  "lstrip s = dropWhile is_space s"

definition rstrip :: "string \<Rightarrow> string" where
  "rstrip s = rev (dropWhile is_space (rev s))"

definition strip :: "string \<Rightarrow> string" where
  "strip s = rstrip (lstrip s)"

definition startswith :: "string \<Rightarrow> string \<Rightarrow> bool" where
  \<comment> \<open>\<open>s.startswith(p)\<close>\<close>
  "startswith s p \<longleftrightarrow> take (length p) s = p"

fun str_find :: "string \<Rightarrow> string \<Rightarrow> nat option" where
  \<comment> \<open>\<open>t.find(sub)\<close>: the lowest index where \<open>sub\<close> occurs, \<open>None\<close> for Python's \<open>-1\<close>\<close>
  "str_find sub [] = (if sub = [] then Some 0 else None)"
| "str_find sub (c # cs) =
     (if startswith (c # cs) sub then Some 0 else map_option Suc (str_find sub cs))"

definition str_in :: "string \<Rightarrow> string \<Rightarrow> bool" where
  \<comment> \<open>\<open>sub in t\<close>\<close>
  "str_in sub t \<longleftrightarrow> str_find sub t \<noteq> None"

definition any_in :: "string list \<Rightarrow> string \<Rightarrow> bool" where
  \<comment> \<open>\<open>any(tok in line for tok in toks)\<close>\<close>
  "any_in toks line \<longleftrightarrow> (\<exists>tok \<in> set toks. str_in tok line)"

definition count_nl :: "string \<Rightarrow> nat \<Rightarrow> nat" where
  \<comment> \<open>\<open>text.count('\n', 0, idx)\<close>\<close>
  "count_nl text idx = length (filter (\<lambda>c. c = LF) (take idx text))"

fun rfind_nl :: "string \<Rightarrow> nat \<Rightarrow> nat option" where
  \<comment> \<open>\<open>text.rfind('\n', 0, idx)\<close>: the highest index below \<open>idx\<close> holding LF\<close>
  "rfind_nl text 0 = None"
| "rfind_nl text (Suc i) =
     (if i < length text \<and> text ! i = LF then Some i else rfind_nl text i)"

definition line_no :: "string \<Rightarrow> nat \<Rightarrow> nat" where
  \<comment> \<open>\<open>ln = text.count('\n', 0, idx) + 1\<close>\<close>
  "line_no text idx = count_nl text idx + 1"

definition col_no :: "string \<Rightarrow> nat \<Rightarrow> nat" where
  \<comment> \<open>\<open>col = idx - text.rfind('\n', 0, idx)\<close>, where \<open>rfind\<close> is \<open>-1\<close> when there is none\<close>
  "col_no text idx = (case rfind_nl text idx of None \<Rightarrow> idx + 1 | Some r \<Rightarrow> idx - r)"

definition skip_sep :: "string \<Rightarrow> string" where
  \<comment> \<open>step over one line boundary; CR LF counts as one\<close>
  "skip_sep r = (case r of [] \<Rightarrow> []
     | c # cs \<Rightarrow> (if c = CR \<and> take 1 cs = [LF] then drop 1 cs else cs))"

lemma length_skip_sep: "r \<noteq> [] \<Longrightarrow> length (skip_sep r) < length r"
  by (cases r) (auto simp: skip_sep_def)

function splitlines :: "string \<Rightarrow> string list" where
  \<comment> \<open>\<open>text.splitlines()\<close>: no empty last line after a final boundary\<close>
  "splitlines s =
     (if s = [] then []
      else takeWhile (\<lambda>c. \<not> is_linebreak c) s
             # splitlines (skip_sep (dropWhile (\<lambda>c. \<not> is_linebreak c) s)))"
  by pat_completeness auto
termination
proof (relation "measure length")
  fix s :: string
  assume ne: "s \<noteq> []"
  let ?r = "dropWhile (\<lambda>c. \<not> is_linebreak c) s"
  have "length (skip_sep ?r) < length s"
  proof (cases "?r")
    case Nil
    then have "skip_sep ?r = []" by (simp only: skip_sep_def list.case)
    with ne show ?thesis by simp
  next
    case (Cons c cs)
    then have "?r \<noteq> []" by (simp only: list.distinct not_False_eq_True)
    then have "length (skip_sep ?r) < length ?r" by (rule length_skip_sep)
    also have "length ?r \<le> length s" by (rule length_dropWhile_le)
    finally show ?thesis .
  qed
  then show "(skip_sep ?r, s) \<in> measure length" by simp
qed simp

declare splitlines.simps [simp del]


section \<open>The fragment of Python's \<open>re\<close> the patterns are written in\<close>

text \<open>
  The scanner's patterns use literals, character classes, greedy \<open>*\<close> and \<open>+\<close> on a
  class, \<open>?\<close> on a group, alternation, capture groups, \<open>\b\<close> and (under \<open>re.M\<close>)
  \<open>^\<close>. A backtracking matcher explores the alternatives in a fixed priority order;
  \<open>rx_match\<close> lists the end positions reachable from a start position in that order,
  with the groups captured on the way, so that its head is the match Python reports.
\<close>

datatype rx =
    Lit string
  | Cls "char \<Rightarrow> bool"
  | Star "char \<Rightarrow> bool"
  | Plus "char \<Rightarrow> bool"
  | Bol
  | WordB
  | Seq rx rx
  | Alt rx rx
  | Opt rx
  | Group nat rx

type_synonym caps = "(nat \<times> nat \<times> nat) list"

definition word_at :: "string \<Rightarrow> nat \<Rightarrow> bool" where
  "word_at t p \<longleftrightarrow> p < length t \<and> is_word (t ! p)"

definition at_boundary :: "string \<Rightarrow> nat \<Rightarrow> bool" where
  \<comment> \<open>\<open>\b\<close>: exactly one side of the position is a word character\<close>
  "at_boundary t p \<longleftrightarrow> (0 < p \<and> word_at t (p - 1)) \<noteq> word_at t p"

definition at_bol :: "string \<Rightarrow> nat \<Rightarrow> bool" where
  \<comment> \<open>\<open>^\<close> under \<open>re.M\<close>: the start of the text or just after a LF\<close>
  "at_bol t p \<longleftrightarrow> p = 0 \<or> (p \<le> length t \<and> t ! (p - 1) = LF)"

definition run_len :: "(char \<Rightarrow> bool) \<Rightarrow> string \<Rightarrow> nat \<Rightarrow> nat" where
  \<comment> \<open>how many characters of the class follow position \<open>p\<close>\<close>
  "run_len P t p = length (takeWhile P (drop p t))"

fun rx_match :: "rx \<Rightarrow> string \<Rightarrow> nat \<Rightarrow> caps \<Rightarrow> (nat \<times> caps) list" where
  "rx_match (Lit s) t p g =
     (if take (length s) (drop p t) = s then [(p + length s, g)] else [])"
| "rx_match (Cls P) t p g = (if p < length t \<and> P (t ! p) then [(Suc p, g)] else [])"
| "rx_match (Star P) t p g = map (\<lambda>k. (p + k, g)) (rev [0 ..< Suc (run_len P t p)])"
| "rx_match (Plus P) t p g = map (\<lambda>k. (p + k, g)) (rev [1 ..< Suc (run_len P t p)])"
| "rx_match Bol t p g = (if at_bol t p then [(p, g)] else [])"
| "rx_match WordB t p g = (if at_boundary t p then [(p, g)] else [])"
| "rx_match (Seq a b) t p g = concat (map (\<lambda>(q, h). rx_match b t q h) (rx_match a t p g))"
| "rx_match (Alt a b) t p g = rx_match a t p g @ rx_match b t p g"
| "rx_match (Opt a) t p g = rx_match a t p g @ [(p, g)]"
| "rx_match (Group n a) t p g = map (\<lambda>(q, h). (q, (n, p, q) # h)) (rx_match a t p g)"

fun seqs :: "rx list \<Rightarrow> rx" where
  "seqs [] = Lit []"
| "seqs [r] = r"
| "seqs (r # rs) = Seq r (seqs rs)"

fun alts :: "rx list \<Rightarrow> rx" where
  "alts [] = Lit []"
| "alts [r] = r"
| "alts (r # rs) = Alt r (alts rs)"

record rmatch =
  m_start :: nat
  m_end :: nat
  m_caps :: caps

definition group :: "string \<Rightarrow> rmatch \<Rightarrow> nat \<Rightarrow> string option" where
  \<comment> \<open>\<open>m.group(n)\<close>, \<open>None\<close> when the group took no part in the match\<close>
  "group t m n =
     (case map_of (m_caps m) n of None \<Rightarrow> None
      | Some (s, e) \<Rightarrow> Some (take (e - s) (drop s t)))"

fun search_starts :: "rx \<Rightarrow> string \<Rightarrow> nat list \<Rightarrow> rmatch option" where
  \<comment> \<open>the first start position, in the order given, at which the pattern matches\<close>
  "search_starts r t [] = None"
| "search_starts r t (s # ss) =
     (case rx_match r t s [] of
        [] \<Rightarrow> search_starts r t ss
      | (e, g) # _ \<Rightarrow> Some \<lparr>m_start = s, m_end = e, m_caps = g\<rparr>)"

definition rx_search :: "rx \<Rightarrow> string \<Rightarrow> nat \<Rightarrow> rmatch option" where
  \<comment> \<open>\<open>pattern.search(text, pos)\<close>: look-behind still sees the text before \<open>pos\<close>\<close>
  "rx_search r t pos = search_starts r t [pos ..< Suc (length t)]"

lemma rx_match_mono: "(q, h) \<in> set (rx_match r t p g) \<Longrightarrow> p \<le> q"
proof (induction r arbitrary: p g q h)
  case (Seq a b)
  then obtain q' h' where "(q', h') \<in> set (rx_match a t p g)"
    and "(q, h) \<in> set (rx_match b t q' h')" by auto
  with Seq.IH show ?case by (meson le_trans)
qed (auto split: if_splits)

lemma search_starts_Some:
  "search_starts r t ss = Some m \<Longrightarrow>
     m_start m \<in> set ss \<and> (m_end m, m_caps m) \<in> set (rx_match r t (m_start m) [])"
  by (induction ss) (auto split: list.splits)

lemma rx_search_bounds:
  assumes "rx_search r t pos = Some m"
  shows "pos \<le> m_start m" and "m_start m \<le> length t" and "m_start m \<le> m_end m"
proof -
  from assms have a: "m_start m \<in> set [pos ..< Suc (length t)]"
    and b: "(m_end m, m_caps m) \<in> set (rx_match r t (m_start m) [])"
    using search_starts_Some unfolding rx_search_def by blast+
  from a show "pos \<le> m_start m" and "m_start m \<le> length t" by auto
  from b show "m_start m \<le> m_end m" by (rule rx_match_mono)
qed

definition next_pos :: "rmatch \<Rightarrow> nat" where
  \<comment> \<open>where the scan resumes: after the match, one further on after an empty one\<close>
  "next_pos m = (if m_end m = m_start m then Suc (m_end m) else m_end m)"

function finditer_from :: "rx \<Rightarrow> string \<Rightarrow> nat \<Rightarrow> rmatch list" where
  "finditer_from r t pos =
     (if length t < pos then []
      else case rx_search r t pos of
             None \<Rightarrow> []
           | Some m \<Rightarrow> m # finditer_from r t (next_pos m))"
  by pat_completeness auto
termination
proof (relation "measure (\<lambda>(r, t, pos). Suc (length t) - pos)")
  fix r :: rx and t :: string and pos :: nat and m :: rmatch
  assume le: "\<not> length t < pos" and s: "rx_search r t pos = Some m"
  from s have "pos \<le> m_start m" and "m_start m \<le> m_end m"
    by (rule rx_search_bounds)+
  then have "pos < next_pos m" by (simp add: next_pos_def)
  with le show "((r, t, next_pos m), (r, t, pos)) \<in> measure (\<lambda>(r, t, pos). Suc (length t) - pos)"
    by simp
qed simp

declare finditer_from.simps [simp del]

definition finditer :: "rx \<Rightarrow> string \<Rightarrow> rmatch list" where
  \<comment> \<open>\<open>pattern.finditer(text)\<close>: the non-overlapping matches, left to right\<close>
  "finditer r t = finditer_from r t 0"

section \<open>The patterns\<close>

definition pat_NativeArray :: rx where
  \<comment> \<open>\<open>\bNativeArray\s*<\<close>\<close>
  "pat_NativeArray = seqs [WordB, Lit ''NativeArray'', Star is_space, Lit ''<'']"

definition pat_Null :: rx where
  \<comment> \<open>\<open>\bnull\b|==\s*null|=\s*null\<close>\<close>
  "pat_Null = alts [seqs [WordB, Lit ''null'', WordB],
                    seqs [Lit ''=='', Star is_space, Lit ''null''],
                    seqs [Lit ''='', Star is_space, Lit ''null'']]"

definition pat_EntityNull :: rx where
  \<comment> \<open>\<open>\bEntity\.Null\b\<close>\<close>
  "pat_EntityNull = seqs [WordB, Lit ''Entity.Null'', WordB]"

definition pat_Class :: rx where
  \<comment> \<open>\<open>^\s*(public|internal|private|protected)?\s*(partial\s+)?(sealed\s+)?(static\s+)?(abstract\s+)?class\s+([A-Za-z_][A-Za-z0-9_]*)\<close>
      with \<open>re.M\<close>\<close>
  "pat_Class = seqs [Bol, Star is_space,
     Opt (Group 1 (alts [Lit ''public'', Lit ''internal'', Lit ''private'', Lit ''protected''])),
     Star is_space,
     Opt (Group 2 (Seq (Lit ''partial'') (Plus is_space))),
     Opt (Group 3 (Seq (Lit ''sealed'') (Plus is_space))),
     Opt (Group 4 (Seq (Lit ''static'') (Plus is_space))),
     Opt (Group 5 (Seq (Lit ''abstract'') (Plus is_space))),
     Lit ''class'', Plus is_space,
     Group 6 (Seq (Cls is_ident_start) (Star is_word))]"

definition class_rest :: rx where
  \<comment> \<open>the class pattern after its leading \<open>^\s*\<close>\<close>
  "class_rest = seqs [
     Opt (Group 1 (alts [Lit ''public'', Lit ''internal'', Lit ''private'', Lit ''protected''])),
     Star is_space,
     Opt (Group 2 (Seq (Lit ''partial'') (Plus is_space))),
     Opt (Group 3 (Seq (Lit ''sealed'') (Plus is_space))),
     Opt (Group 4 (Seq (Lit ''static'') (Plus is_space))),
     Opt (Group 5 (Seq (Lit ''abstract'') (Plus is_space))),
     Lit ''class'', Plus is_space,
     Group 6 (Seq (Cls is_ident_start) (Star is_word))]"

definition pat_Burst :: rx where
  \<comment> \<open>\<open>\[BurstCompile\b\<close>\<close>
  "pat_Burst = seqs [Lit ''[BurstCompile'', WordB]"

definition public_type_pattern :: rx where
  \<comment> \<open>\<open>^\s*public\s+(partial\s+)?(struct|class)\s+([A-Za-z_][A-Za-z0-9_]*)([^\n\r]*)\<close>
      with \<open>re.M\<close>\<close>
  "public_type_pattern = seqs [Bol, Star is_space, Lit ''public'', Plus is_space,
     Opt (Group 1 (Seq (Lit ''partial'') (Plus is_space))),
     Group 2 (alts [Lit ''struct'', Lit ''class'']),
     Plus is_space,
     Group 3 (Seq (Cls is_ident_start) (Star is_word)),
     Group 4 (Star not_eol)]"


section \<open>Configuration and findings\<close>

record config =
  CheckNativeArray :: bool
  CheckNulls :: bool
  CheckSealedClasses :: bool
  CheckBurstRef :: bool
  CheckEntityNull :: bool
  CheckStoryComments :: bool
  CheckUnusedPrivateSymbols :: bool
  IgnoreFolderTokens :: "string list"
  ExemptEditorNullChecks :: bool

definition default_cfg :: config where
  "default_cfg = \<lparr>CheckNativeArray = True, CheckNulls = True, CheckSealedClasses = True,
     CheckBurstRef = True, CheckEntityNull = True, CheckStoryComments = True,
     CheckUnusedPrivateSymbols = False,
     IgnoreFolderTokens = [''Library'', ''Temp'', ''Packages'', ''Build'', ''obj''],
     ExemptEditorNullChecks = True\<rparr>"

definition ignore_markers :: "string list" where
  \<comment> \<open>\<open>'copilot-ignore'\<close> and the two glyph markers, as the bytes of the source file\<close>
  "ignore_markers = [''copilot-ignore'',
     [CHR 0xC3, CHR 0xB0, CHR 0xC5, CHR 0xB8, CHR 0xC5, CHR 0xA1, CHR 0xC2, CHR 0xAB],
     [CHR 0xC3, CHR 0xB0, CHR 0xC5, CHR 0xB8, CHR 0xE2, CHR 0x80, CHR 0xBA, CHR 0xE2, CHR 0x80, CHR 0x98]]"

datatype tag = NativeArray | Null | UnsealedClass | EntityNull | BurstRef | Story

datatype finding =
    ReadError string string
  | Finding (f_tag: tag) (f_path: string) (f_line: nat) (f_col: nat) (f_msg: string)

text \<open>
  \<open>ReadError relPath e\<close> stands for the line \<open>[Error] Could not read relPath: e\<close>, and
  \<open>Finding tag relPath ln col msg\<close> for \<open>[tag] relPath:ln:col -> msg\<close>.
\<close>

definition suppressed :: "string \<Rightarrow> bool" where
  \<comment> \<open>\<open>any(tok in line for tok in ignore_markers)\<close>\<close>
  "suppressed line \<longleftrightarrow> any_in ignore_markers line"

definition in_editor :: "string \<Rightarrow> bool" where
  \<comment> \<open>\<open>'/Editor/' in ('/' + relPath)\<close>\<close>
  "in_editor relPath \<longleftrightarrow> str_in ''/Editor/'' (''/'' @ relPath)"

section \<open>The rules on one file\<close>

definition msg_NativeArray :: string where
  "msg_NativeArray = ''consider DynamicBuffer or BlobAsset configuration''"

definition check_NativeArray :: "string \<Rightarrow> string \<Rightarrow> finding list" where
  "check_NativeArray relPath text =
     (if rx_search pat_NativeArray text 0 \<noteq> None
      then map (\<lambda>m. Finding NativeArray relPath (line_no text (m_start m))
                       (col_no text (m_start m)) msg_NativeArray)
               (finditer pat_NativeArray text)
      else [])"

definition msg_Null :: string where
  "msg_Null = [CHR 0x27] @ ''null'' @ [CHR 0x27] @ '' found. Policy: no nulls allowed.''"

definition null_match :: "string \<Rightarrow> string \<Rightarrow> rmatch \<Rightarrow> finding list" where
  "null_match relPath text m =
     (let idx = m_start m;
          ln = line_no text idx;
          col = col_no text idx;
          line = splitlines text ! (ln - 1)
      in if suppressed line then [] else [Finding Null relPath ln col msg_Null])"

definition check_Nulls :: "config \<Rightarrow> string \<Rightarrow> string \<Rightarrow> finding list" where
  "check_Nulls cfg relPath text =
     (let exempt_editor = (ExemptEditorNullChecks cfg \<and> in_editor relPath)
      in if \<not> exempt_editor
         then concat (map (null_match relPath text) (finditer pat_Null text))
         else [])"

definition truthy :: "string option \<Rightarrow> bool" where
  \<comment> \<open>Python's truth value of a group: neither \<open>None\<close> nor the empty string\<close>
  "truthy g \<longleftrightarrow> g \<noteq> None \<and> g \<noteq> Some []"

definition fmt :: "string option \<Rightarrow> string" where
  \<comment> \<open>how an f-string prints a group\<close>
  "fmt g = (case g of None \<Rightarrow> ''None'' | Some s \<Rightarrow> s)"

definition msg_Unsealed :: "string \<Rightarrow> string" where
  "msg_Unsealed name = ''class '' @ [CHR 0x27] @ name @ [CHR 0x27] @ '' is not sealed.''"

definition class_match :: "string \<Rightarrow> string \<Rightarrow> rmatch \<Rightarrow> finding list" where
  "class_match relPath text m =
     (let sealed = group text m 3;
          staticg = group text m 4
      in if \<not> truthy sealed \<and> \<not> truthy staticg
         then [Finding UnsealedClass relPath (line_no text (m_start m)) 1
                 (msg_Unsealed (fmt (group text m 6)))]
         else [])"

definition check_SealedClasses :: "string \<Rightarrow> string \<Rightarrow> finding list" where
  "check_SealedClasses relPath text =
     concat (map (class_match relPath text) (finditer pat_Class text))"

definition msg_EntityNull :: string where
  "msg_EntityNull =
     ''usage of Entity.Null found. Replace with explicit sentinel or valid Entity reference.''"

definition entity_null_match :: "string \<Rightarrow> string \<Rightarrow> rmatch \<Rightarrow> finding list" where
  "entity_null_match relPath text m =
     (let idx = m_start m;
          ln = line_no text idx;
          line = splitlines text ! (ln - 1)
      in if suppressed line then [] else [Finding EntityNull relPath ln 1 msg_EntityNull])"

definition check_EntityNull :: "string \<Rightarrow> string \<Rightarrow> finding list" where
  "check_EntityNull relPath text =
     (if rx_search pat_EntityNull text 0 \<noteq> None
      then concat (map (entity_null_match relPath text) (finditer pat_EntityNull text))
      else [])"

subsection \<open>The attribute-proximity rule\<close>

definition msg_BurstRef :: string where
  "msg_BurstRef = [CHR 0x27] @ ''ref'' @ [CHR 0x27]
     @ '' parameter near [BurstCompile] attribute. Avoid refs in Burst.''"

definition closes :: "string \<Rightarrow> bool" where
  \<comment> \<open>\<open>l.lstrip().startswith('{') or l.lstrip().startswith('[')\<close>\<close>
  "closes l \<longleftrightarrow> startswith (lstrip l) ''{'' \<or> startswith (lstrip l) ''[''"

fun burst_loop :: "string \<Rightarrow> string list \<Rightarrow> nat list \<Rightarrow> finding list" where
  \<comment> \<open>the body of \<open>for j in range(i+1, end)\<close>, over the values \<open>j\<close> still to come;
      each \<open>continue\<close> goes on with the next \<open>j\<close>, \<open>break\<close> ends the loop\<close>
  "burst_loop relPath lines [] = []"
| "burst_loop relPath lines (j # js) =
     (if str_in ''ref '' (lines ! j) then
        (let line = lines ! j in
         if suppressed line then burst_loop relPath lines js
         else if str_in ''ref SystemState'' line then burst_loop relPath lines js
         else Finding BurstRef relPath (j + 1) 1 msg_BurstRef
                # (if closes (lines ! j) then [] else burst_loop relPath lines js))
      else (if closes (lines ! j) then [] else burst_loop relPath lines js))"

definition burst_at :: "string \<Rightarrow> string list \<Rightarrow> nat \<Rightarrow> finding list" where
  \<comment> \<open>the body of \<open>for i, l in enumerate(lines)\<close>\<close>
  "burst_at relPath lines i =
     (if rx_search pat_Burst (lines ! i) 0 \<noteq> None
      then (let end = min (length lines) (i + 20)
            in burst_loop relPath lines [i + 1 ..< end])
      else [])"

definition check_BurstRef :: "string \<Rightarrow> string \<Rightarrow> finding list" where
  "check_BurstRef relPath text =
     (let lines = splitlines text
      in concat (map (burst_at relPath lines) [0 ..< length lines]))"


subsection \<open>The documentation-comment rule\<close>

definition interesting_tokens :: "string list" where
  "interesting_tokens = [''SystemBase'', ''ISystem'', ''ComponentSystemBase'',
     ''IComponentData'', ''ISharedComponentData'', ''IBufferElementData'',
     ''MonoBehaviour'', ''Baker'', ''Authoring'', ''IBaker'']"

definition msg_Story_missing :: string where
  "msg_Story_missing = ''public system/component/authoring type missing leading ''
     @ [CHR 0x27] @ ''// Story: ...'' @ [CHR 0x27] @ '' comment.''"

definition msg_Story_short :: string where
  "msg_Story_short = [CHR 0x27] @ ''Story'' @ [CHR 0x27] @ '' comment too short (min 20 chars).''"

fun lookahead :: "string list \<Rightarrow> nat list \<Rightarrow> bool" where
  \<comment> \<open>\<open>for k in range(ln, end + 1)\<close>: true as soon as line \<open>k\<close> (1-based) holds a token\<close>
  "lookahead lines [] = False"
| "lookahead lines (k # ks) =
     (if any_in interesting_tokens (lines ! (k - 1)) then True else lookahead lines ks)"

definition story_found :: "string \<Rightarrow> rmatch \<Rightarrow> bool" where
  \<comment> \<open>the flag \<open>found\<close>\<close>
  "story_found text m =
     (let ln = line_no text (m_start m);
          decl_remainder = (case group text m 4 of None \<Rightarrow> [] | Some r \<Rightarrow> r)
      in if any_in interesting_tokens decl_remainder then True
         else (let lines = splitlines text;
                   end = min (length lines) (ln - 1 + 3)
               in lookahead lines [ln ..< end + 1]))"

function story_scan :: "string list \<Rightarrow> int \<Rightarrow> int \<Rightarrow> nat option" where
  \<comment> \<open>\<open>while prev >= 0 and ln - prev <= 6\<close>; the result is \<open>story_idx\<close>, \<open>None\<close> for \<open>-1\<close>\<close>
  "story_scan lines ln prev =
     (if 0 \<le> prev \<and> ln - prev \<le> 6 then
        (let s = lstrip (lines ! nat prev) in
         if s = [] then story_scan lines ln (prev - 1)
         else if startswith s ''['' then story_scan lines ln (prev - 1)
         else if startswith s ''//'' \<and> str_in ''Story:'' s then Some (nat prev)
         else None)
      else None)"
  by pat_completeness auto
termination
  by (relation "measure (\<lambda>(lines, ln, prev). nat (prev + 1))") auto

declare story_scan.simps [simp del]

definition story_short :: "string \<Rightarrow> string list \<Rightarrow> nat \<Rightarrow> finding list" where
  \<comment> \<open>the \<open>else\<close> branch: a story line was found at index \<open>story_idx\<close>\<close>
  "story_short relPath lines story_idx =
     (let txt = strip (lines ! story_idx) in
      case str_find ''story:'' (lower txt) of
        None \<Rightarrow> []
      | Some idx \<Rightarrow>
          (let after = strip (drop (idx + length ''story:'') txt)
           in if length after < 20
              then [Finding Story relPath (story_idx + 1) 1 msg_Story_short]
              else []))"

definition story_match :: "config \<Rightarrow> string \<Rightarrow> string \<Rightarrow> rmatch \<Rightarrow> finding list" where
  \<comment> \<open>the body of \<open>for m in public_type_pattern.finditer(text)\<close>\<close>
  "story_match cfg relPath text m =
     (let decl_idx = m_start m;
          ln = line_no text decl_idx;
          col = col_no text decl_idx
      in if \<not> story_found text m then []
         else (let decl_line = splitlines text ! (ln - 1)
               in if suppressed decl_line then []
                  else (let lines = splitlines text in
                        case story_scan lines (int ln) (int ln - 2) of
                          None \<Rightarrow>
                            (if ExemptEditorNullChecks cfg \<and> in_editor relPath then []
                             else [Finding Story relPath ln col msg_Story_missing])
                        | Some story_idx \<Rightarrow> story_short relPath lines story_idx)))"

definition check_StoryComments :: "config \<Rightarrow> string \<Rightarrow> string \<Rightarrow> finding list" where
  "check_StoryComments cfg relPath text =
     concat (map (story_match cfg relPath text) (finditer public_type_pattern text))"

subsection \<open>All rules on one text\<close>

definition scan_text :: "config \<Rightarrow> string \<Rightarrow> string \<Rightarrow> finding list" where
  \<comment> \<open>the part of the file loop after a successful read; the story rule sits inside
      the \<open>if cfg.get('CheckBurstRef')\<close> block\<close>
  "scan_text cfg relPath text =
     (if CheckNativeArray cfg then check_NativeArray relPath text else [])
     @ (if CheckNulls cfg then check_Nulls cfg relPath text else [])
     @ (if CheckSealedClasses cfg then check_SealedClasses relPath text else [])
     @ (if CheckEntityNull cfg then check_EntityNull relPath text else [])
     @ (if CheckBurstRef cfg
        then check_BurstRef relPath text
             @ (if CheckStoryComments cfg then check_StoryComments cfg relPath text else [])
        else [])"

section \<open>The walk over the files\<close>

text \<open>
  The file system is given as what \<open>os.walk\<close> and \<open>open\<close> return: each directory with
  its path relative to the root and its files; each file with its name, its relative
  path and either its text or the exception that reading it raised.
\<close>

record file_entry =
  fn :: string
  relPath :: string
  content :: "string + string"

definition endswith :: "string \<Rightarrow> string \<Rightarrow> bool" where
  "endswith s p \<longleftrightarrow> length p \<le> length s \<and> drop (length s - length p) s = p"

fun scan_files :: "config \<Rightarrow> file_entry list \<Rightarrow> finding list" where
  \<comment> \<open>\<open>for fn in filenames\<close>, with the findings appended in order\<close>
  "scan_files cfg [] = []"
| "scan_files cfg (f # fs) =
     (if \<not> endswith (lower (fn f)) ''.cs'' then scan_files cfg fs
      else if str_in ''Assets/Editor/CopilotRules'' (relPath f) then scan_files cfg fs
      else (case content f of
              Inl e \<Rightarrow> ReadError (relPath f) e # scan_files cfg fs
            | Inr text \<Rightarrow> scan_text cfg (relPath f) text @ scan_files cfg fs))"

definition skip_dir :: "config \<Rightarrow> string \<Rightarrow> bool" where
  \<comment> \<open>the flag \<open>skip\<close> of a directory with relative path \<open>rel\<close>\<close>
  "skip_dir cfg rel \<longleftrightarrow>
     (\<exists>tok \<in> set (IgnoreFolderTokens cfg).
        tok \<noteq> [] \<and> str_in (''/'' @ tok @ ''/'') (''/'' @ rel @ ''/''))"

fun scan_walk :: "config \<Rightarrow> (string \<times> file_entry list) list \<Rightarrow> finding list" where
  \<comment> \<open>\<open>for dirpath, dirnames, filenames in os.walk(assets)\<close>\<close>
  "scan_walk cfg [] = []"
| "scan_walk cfg ((rel, files) # ds) =
     (if skip_dir cfg rel then scan_walk cfg ds
      else scan_files cfg files @ scan_walk cfg ds)"


section \<open>Predicates of the statements\<close>

definition is_transparent :: "string \<Rightarrow> bool" where
  \<comment> \<open>a line the backward scan steps over: blank, or starting with an attribute bracket\<close>
  "is_transparent l \<longleftrightarrow> lstrip l = [] \<or> startswith (lstrip l) ''[''"

definition is_story_line :: "string \<Rightarrow> bool" where
  \<comment> \<open>the test \<open>s.startswith('//') and 'Story:' in s\<close> on the left-stripped line\<close>
  "is_story_line l \<longleftrightarrow> startswith (lstrip l) ''//'' \<and> str_in ''Story:'' (lstrip l)"

fun consumes :: "rx \<Rightarrow> bool" where
  \<comment> \<open>a pattern every match of which takes at least one character\<close>
  "consumes (Lit s) \<longleftrightarrow> s \<noteq> []"
| "consumes (Cls P) \<longleftrightarrow> True"
| "consumes (Star P) \<longleftrightarrow> False"
| "consumes (Plus P) \<longleftrightarrow> True"
| "consumes Bol \<longleftrightarrow> False"
| "consumes WordB \<longleftrightarrow> False"
| "consumes (Seq a b) \<longleftrightarrow> consumes a \<or> consumes b"
| "consumes (Alt a b) \<longleftrightarrow> consumes a \<and> consumes b"
| "consumes (Opt a) \<longleftrightarrow> False"
| "consumes (Group n a) \<longleftrightarrow> consumes a"

definition line_valid :: "string \<Rightarrow> finding \<Rightarrow> bool" where
  \<comment> \<open>a finding of a rule whose line number is a 1-based index into \<open>text.splitlines()\<close>\<close>
  "line_valid text f \<longleftrightarrow>
     (case f of ReadError p e \<Rightarrow> False
      | Finding t p l c msg \<Rightarrow> 1 \<le> l \<and> l \<le> length (splitlines text))"

fun anchor_free :: "rx \<Rightarrow> bool" where
  \<comment> \<open>a pattern without \<open>^\<close> and \<open>\b\<close>: its matches do not look at the text before them\<close>
  "anchor_free Bol \<longleftrightarrow> False"
| "anchor_free WordB \<longleftrightarrow> False"
| "anchor_free (Seq a b) \<longleftrightarrow> anchor_free a \<and> anchor_free b"
| "anchor_free (Alt a b) \<longleftrightarrow> anchor_free a \<and> anchor_free b"
| "anchor_free (Opt a) \<longleftrightarrow> anchor_free a"
| "anchor_free (Group n a) \<longleftrightarrow> anchor_free a"
| "anchor_free _ \<longleftrightarrow> True"

definition shift_caps :: "nat \<Rightarrow> caps \<Rightarrow> caps" where
  \<comment> \<open>the captured spans moved \<open>k\<close> characters to the right\<close>
  "shift_caps k g = map (\<lambda>(n, a, b). (n, k + a, k + b)) g"

definition shift_res :: "nat \<Rightarrow> nat \<times> caps \<Rightarrow> nat \<times> caps" where
  \<comment> \<open>an end position and its captures moved \<open>k\<close> characters to the right\<close>
  "shift_res k = (\<lambda>(q, h). (k + q, shift_caps k h))"

definition not_swallowed :: "string \<Rightarrow> nat \<Rightarrow> bool" where
  \<comment> \<open>no match of the class pattern that starts before position \<open>s\<close> ends after it\<close>
  "not_swallowed t s \<longleftrightarrow>
     (\<forall>p \<in> set [0 ..< s]. \<forall>(q, h) \<in> set (rx_match pat_Class t p []). q \<le> s)"

definition own_findings :: "string \<Rightarrow> string \<Rightarrow> nat \<Rightarrow> nat \<Rightarrow> string list \<Rightarrow> bool" where
  \<comment> \<open>the match of the class pattern that starts at \<open>s\<close> ends at \<open>e\<close> and yields exactly the
      findings with the messages \<open>msgs\<close>; every other match ends by \<open>s\<close> or starts from \<open>e\<close> on\<close>
  "own_findings path t s e msgs \<longleftrightarrow>
     (\<exists>before m after ln.
        finditer pat_Class t = before @ m # after
        \<and> (\<forall>b \<in> set before. m_end b \<le> s)
        \<and> m_start m = s \<and> m_end m = e
        \<and> (\<forall>a \<in> set after. e \<le> m_start a)
        \<and> class_match path t m = map (Finding UnsealedClass path ln 1) msgs)"

definition lf_only :: "string \<Rightarrow> bool" where
  \<comment> \<open>the only line boundary of the text is LF\<close>
  "lf_only t \<longleftrightarrow> (\<forall>c \<in> set t. is_linebreak c \<longrightarrow> c = LF)"

definition matched :: "string \<Rightarrow> rmatch \<Rightarrow> string" where
  \<comment> \<open>\<open>m.group(0)\<close>: the text the match covers\<close>
  "matched t m = take (m_end m - m_start m) (drop (m_start m) t)"

text \<open>The next two follow the wording of the specification, to be compared with the code.\<close>

definition spec_doc_line :: "string \<Rightarrow> bool" where
  \<comment> \<open>the specification's words: a single-line comment containing the keyword marker,
      matched case-insensitively, followed by a colon\<close>
  "spec_doc_line l \<longleftrightarrow> startswith (lstrip l) ''//'' \<and> str_in ''story:'' (lower l)"

definition spec_interesting :: "string \<Rightarrow> rmatch \<Rightarrow> bool" where
  \<comment> \<open>the specification's words: a token in the remainder of the declaration line, or in
      one of the three lines that follow the declaration line\<close>
  "spec_interesting text m \<longleftrightarrow>
     (let ln = line_no text (m_start m); lines = splitlines text
      in any_in interesting_tokens (case group text m 4 of None \<Rightarrow> [] | Some r \<Rightarrow> r)
         \<or> list_ex (\<lambda>i. i < length lines \<and> any_in interesting_tokens (lines ! i))
              [ln ..< ln + 3])"

section \<open>Sample inputs\<close>

definition unreadable_file :: file_entry where
  "unreadable_file = \<lparr>fn = ''A.cs'', relPath = ''Assets/A.cs'', content = Inl ''denied''\<rparr>"

definition readable_file :: file_entry where
  "readable_file = \<lparr>fn = ''B.CS'', relPath = ''Assets/B.CS'',
     content = Inr ''NativeArray<int> x;''\<rparr>"

definition burst_text :: string where
  "burst_text = ''[BurstCompile]'' @ [LF] @ ''{ ref SystemState s'' @ [LF] @ ''ref int x''"

definition short_story_text :: string where
  "short_story_text = ''// Story: short'' @ [LF] @ ''public struct FooSystem : ISystem''"

definition short_story_match :: rmatch where
  "short_story_match = \<lparr>m_start = 16, m_end = 49, m_caps = [(4, 39, 49), (3, 30, 39), (2, 23, 29)]\<rparr>"

definition lowercase_story_text :: string where
  "lowercase_story_text = ''// story: a sufficiently long description here'' @ [LF]
     @ ''public struct FooSystem : ISystem''"

definition far_token_text :: string where
  "far_token_text = ''public struct Foo'' @ [LF, LF, LF] @ '': ISystem''"

definition near_token_text :: string where
  "near_token_text = ''public struct Foo'' @ [LF, LF] @ '': ISystem''"

definition foo_decl_match :: rmatch where
  "foo_decl_match = \<lparr>m_start = 0, m_end = 17, m_caps = [(4, 17, 17), (3, 14, 17), (2, 7, 13)]\<rparr>"

definition closing_ref_text :: string where
  "closing_ref_text = ''[BurstCompile]'' @ [LF] @ ''{ ref int x'' @ [LF] @ ''ref int y''"

definition mixed_text :: string where
  "mixed_text = ''NativeArray<int> a;'' @ [LF] @ ''x = null;'' @ [LF] @ ''public class Foo''"

definition lowercase_story_match :: rmatch where
  "lowercase_story_match = \<lparr>m_start = 47, m_end = 80, m_caps = [(4, 70, 80), (3, 61, 70), (2, 54, 60)]\<rparr>"

definition bar_pre :: string where "bar_pre = ''using X;'' @ [LF]"

definition bar_post :: string where "bar_post = [LF] @ ''{''"

definition attributed_class_text :: string where
  "attributed_class_text = ''[Serializable] public class Foo''"

definition swallowed_class_text :: string where
  "swallowed_class_text = ''class'' @ [LF] @ ''public class Foo''"

section \<open>Read failures\<close>

lemma scan_files_append: "scan_files cfg (xs @ ys) = scan_files cfg xs @ scan_files cfg ys"
  by (induction xs) (auto split: sum.splits)

lemma scan_walk_append: "scan_walk cfg (xs @ ys) = scan_walk cfg xs @ scan_walk cfg ys"
  by (induction xs) auto

text \<open>
  C8. A file that passes the filters of the walk (name ending in \<open>.cs\<close>, not under the
  scanner's own directory, in a directory that is not skipped) and whose read raises
  contributes exactly one entry, the \<open>[Error]\<close> line for its path, at its place in the
  results; the files and directories before and after it are scanned as they would be
  without it.
\<close>

theorem read_failure_one_error:
  assumes "endswith (lower (fn f)) ''.cs''"
    and "\<not> str_in ''Assets/Editor/CopilotRules'' (relPath f)"
    and "content f = Inl e"
    and "\<not> skip_dir cfg rel"
  shows "scan_walk cfg (ds1 @ (rel, pre @ f # post) # ds2) =
           scan_walk cfg ds1 @ scan_files cfg pre
             @ [ReadError (relPath f) e] @ scan_files cfg post @ scan_walk cfg ds2"
  using assms by (simp add: scan_walk_append scan_files_append)

theorem read_failure_one_error_witness:
  "endswith (lower (fn unreadable_file)) ''.cs''
   \<and> \<not> str_in ''Assets/Editor/CopilotRules'' (relPath unreadable_file)
   \<and> content unreadable_file = Inl ''denied''
   \<and> \<not> skip_dir default_cfg ''Assets''
   \<and> scan_walk default_cfg [(''Assets'', [unreadable_file, readable_file])] =
       [ReadError ''Assets/A.cs'' ''denied'',
        Finding NativeArray ''Assets/B.CS'' 1 1 msg_NativeArray]"
proof -
  have h1: "endswith (lower (fn unreadable_file)) ''.cs''" by code_simp
  have h2: "\<not> str_in ''Assets/Editor/CopilotRules'' (relPath unreadable_file)" by code_simp
  have h3: "content unreadable_file = Inl ''denied''" by code_simp
  have h4: "\<not> skip_dir default_cfg ''Assets''" by code_simp
  have r: "scan_files default_cfg [readable_file] =
             [Finding NativeArray ''Assets/B.CS'' 1 1 msg_NativeArray]" by code_simp
  have e1: "scan_walk default_cfg [] = []" by (rule scan_walk.simps(1))
  have e2: "scan_files default_cfg [] = []" by (rule scan_files.simps(1))
  have e3: "relPath unreadable_file = ''Assets/A.cs''" by code_simp
  from read_failure_one_error [OF h1 h2 h3 h4, of "[]" "[]" "[readable_file]" "[]"]
  have "scan_walk default_cfg [(''Assets'', [unreadable_file, readable_file])] =
          [ReadError ''Assets/A.cs'' ''denied'',
           Finding NativeArray ''Assets/B.CS'' 1 1 msg_NativeArray]"
    by (simp only: e1 e2 e3 r append_Nil append_Cons append_Nil2)
  with h1 h2 h3 h4 show ?thesis by blast
qed

section \<open>Where the scanner departs from its description\<close>

text \<open>
  C1. The array-type rule and the class-modifier rule never look at the suppression
  markers: a line that carries \<open>copilot-ignore\<close> is reported all the same, while the
  null-literal rule on the same kind of line reports nothing.
\<close>

theorem suppression_ignored_by_NativeArray_and_Class:
  "suppressed ''NativeArray<int> x; // copilot-ignore''
   \<and> scan_text default_cfg ''Assets/A.cs'' ''NativeArray<int> x; // copilot-ignore''
       = [Finding NativeArray ''Assets/A.cs'' 1 1 msg_NativeArray]
   \<and> suppressed ''public class Foo // copilot-ignore''
   \<and> check_SealedClasses ''Assets/A.cs'' ''public class Foo // copilot-ignore''
       = [Finding UnsealedClass ''Assets/A.cs'' 1 1 (msg_Unsealed ''Foo'')]
   \<and> suppressed ''x = null; // copilot-ignore''
   \<and> check_Nulls default_cfg ''Assets/A.cs'' ''x = null; // copilot-ignore'' = []"
proof -
  have a: "suppressed ''NativeArray<int> x; // copilot-ignore''" by code_simp
  have b: "scan_text default_cfg ''Assets/A.cs'' ''NativeArray<int> x; // copilot-ignore''
       = [Finding NativeArray ''Assets/A.cs'' 1 1 msg_NativeArray]" by code_simp
  have c: "suppressed ''public class Foo // copilot-ignore''" by code_simp
  have d: "check_SealedClasses ''Assets/A.cs'' ''public class Foo // copilot-ignore''
       = [Finding UnsealedClass ''Assets/A.cs'' 1 1 (msg_Unsealed ''Foo'')]" by code_simp
  have e: "suppressed ''x = null; // copilot-ignore''" by code_simp
  have f: "check_Nulls default_cfg ''Assets/A.cs'' ''x = null; // copilot-ignore'' = []"
    by code_simp
  from a b c d e f show ?thesis by blast
qed

text \<open>
  C2. The documentation-comment rule sits inside the block of the attribute-proximity
  toggle: with \<open>CheckBurstRef\<close> off and \<open>CheckStoryComments\<close> on, an undocumented
  system type is not reported, although the rule itself reports it and the scan
  with both toggles on does.
\<close>

theorem story_rule_gated_by_CheckBurstRef:
  "CheckStoryComments (default_cfg\<lparr>CheckBurstRef := False\<rparr>)
   \<and> scan_text (default_cfg\<lparr>CheckBurstRef := False\<rparr>) ''Assets/A.cs''
         ''public struct FooSystem : ISystem'' = []
   \<and> check_StoryComments (default_cfg\<lparr>CheckBurstRef := False\<rparr>) ''Assets/A.cs''
         ''public struct FooSystem : ISystem''
       = [Finding Story ''Assets/A.cs'' 1 1 msg_Story_missing]
   \<and> scan_text default_cfg ''Assets/A.cs'' ''public struct FooSystem : ISystem''
       = [Finding Story ''Assets/A.cs'' 1 1 msg_Story_missing]"
proof -
  have a: "CheckStoryComments (default_cfg\<lparr>CheckBurstRef := False\<rparr>)" by code_simp
  have b: "scan_text (default_cfg\<lparr>CheckBurstRef := False\<rparr>) ''Assets/A.cs''
         ''public struct FooSystem : ISystem'' = []" by code_simp
  have c: "check_StoryComments (default_cfg\<lparr>CheckBurstRef := False\<rparr>) ''Assets/A.cs''
         ''public struct FooSystem : ISystem''
       = [Finding Story ''Assets/A.cs'' 1 1 msg_Story_missing]" by code_simp
  have d: "scan_text default_cfg ''Assets/A.cs'' ''public struct FooSystem : ISystem''
       = [Finding Story ''Assets/A.cs'' 1 1 msg_Story_missing]" by code_simp
  from a b c d show ?thesis by blast
qed

text \<open>
  C3. A line of the window that begins with an opening brace does not close the window
  when it also holds \<open>ref SystemState\<close> (or \<open>ref \<close> and a suppression marker): the
  \<open>continue\<close> that drops the finding also steps over the test that ends the loop, and
  the line after it is still examined and reported.
\<close>

theorem window_not_closed_after_continue:
  "splitlines burst_text = [''[BurstCompile]'', ''{ ref SystemState s'', ''ref int x'']
   \<and> closes ''{ ref SystemState s''
   \<and> check_BurstRef ''Assets/A.cs'' burst_text
       = [Finding BurstRef ''Assets/A.cs'' 3 1 msg_BurstRef]"
proof -
  have a: "splitlines burst_text = [''[BurstCompile]'', ''{ ref SystemState s'', ''ref int x'']"
    by code_simp
  have b: "closes ''{ ref SystemState s''" by code_simp
  have c: "check_BurstRef ''Assets/A.cs'' burst_text
       = [Finding BurstRef ''Assets/A.cs'' 3 1 msg_BurstRef]" by code_simp
  from a b c show ?thesis by blast
qed

section \<open>The forward window of the attribute-proximity rule\<close>

lemma burst_loop_hit:
  assumes "\<forall>k \<in> set xs. \<not> closes (lines ! k)"
    and "str_in ''ref '' (lines ! j)" and "\<not> suppressed (lines ! j)"
    and "\<not> str_in ''ref SystemState'' (lines ! j)"
  shows "Finding BurstRef p (j + 1) 1 msg_BurstRef \<in> set (burst_loop p lines (xs @ j # ys))"
  using assms by (induction xs) (auto simp: Let_def)

lemma burst_loop_lines:
  "f \<in> set (burst_loop p lines js) \<Longrightarrow> \<exists>j \<in> set js. f = Finding BurstRef p (j + 1) 1 msg_BurstRef"
  by (induction js) (auto simp: Let_def split: if_splits)

lemma burst_loop_stop:
  assumes "closes (lines ! j)" and "\<not> suppressed (lines ! j)"
    and "\<not> str_in ''ref SystemState'' (lines ! j)"
  shows "burst_loop p lines (xs @ j # ys) = burst_loop p lines (xs @ [j])"
  using assms by (induction xs) (auto simp: Let_def)

lemma upt_split3: "a \<le> j \<Longrightarrow> j < b \<Longrightarrow> [a ..< b] = [a ..< j] @ j # [Suc j ..< b]"
  by (metis le_add_diff_inverse less_imp_le_nat upt_add_eq_append upt_conv_Cons)

text \<open>
  C10. Let line \<open>i\<close> hold the attribute marker and let line \<open>j\<close> lie in its window
  (\<open>i < j < min (len lines) (i + 20)\<close>), with no closing line between them. If line
  \<open>j\<close> closes the window and holds \<open>ref \<close>, without a suppression marker and without
  \<open>ref SystemState\<close>, then the finding for line \<open>j + 1\<close> (1-based) is reported, and
  this trigger reports nothing below that line: the closing line is checked first and
  ends the window afterwards.
\<close>

theorem closing_line_still_checked:
  assumes lines: "lines = splitlines text"
    and ij: "i < j" and jlen: "j < length lines" and j20: "j < i + 20"
    and trig: "rx_search pat_Burst (lines ! i) 0 \<noteq> None"
    and open_before: "\<forall>k. i < k \<and> k < j \<longrightarrow> \<not> closes (lines ! k)"
    and cl: "closes (lines ! j)"
    and rf: "str_in ''ref '' (lines ! j)"
    and ns: "\<not> suppressed (lines ! j)"
    and nss: "\<not> str_in ''ref SystemState'' (lines ! j)"
  shows "Finding BurstRef path (j + 1) 1 msg_BurstRef \<in> set (check_BurstRef path text)
       \<and> (\<forall>f \<in> set (burst_at path lines i). f_line f \<le> j + 1)"
proof -
  let ?end = "min (length lines) (i + 20)"
  from ij jlen j20 have split: "[i + 1 ..< ?end] = [i + 1 ..< j] @ j # [Suc j ..< ?end]"
    by (intro upt_split3) auto
  from open_before have ob: "\<forall>k \<in> set [i + 1 ..< j]. \<not> closes (lines ! k)" by auto
  have at: "burst_at path lines i = burst_loop path lines ([i + 1 ..< j] @ j # [Suc j ..< ?end])"
    using trig split by (simp add: burst_at_def Let_def)
  have "Finding BurstRef path (j + 1) 1 msg_BurstRef \<in> set (burst_at path lines i)"
    unfolding at using ob rf ns nss by (rule burst_loop_hit)
  moreover from ij jlen have "i \<in> set [0 ..< length lines]" by simp
  ultimately have a: "Finding BurstRef path (j + 1) 1 msg_BurstRef \<in> set (check_BurstRef path text)"
    unfolding check_BurstRef_def Let_def lines [symmetric] by auto
  have "burst_at path lines i = burst_loop path lines ([i + 1 ..< j] @ [j])"
    unfolding at using cl ns nss by (rule burst_loop_stop)
  then have b: "\<forall>f \<in> set (burst_at path lines i). f_line f \<le> j + 1"
    by (auto dest!: burst_loop_lines)
  from a b show ?thesis ..
qed

theorem closing_line_still_checked_witness:
  "splitlines closing_ref_text = [''[BurstCompile]'', ''{ ref int x'', ''ref int y'']
   \<and> closes (splitlines closing_ref_text ! 1)
   \<and> str_in ''ref '' (splitlines closing_ref_text ! 1)
   \<and> Finding BurstRef ''Assets/A.cs'' 2 1 msg_BurstRef
        \<in> set (check_BurstRef ''Assets/A.cs'' closing_ref_text)
   \<and> list_all (\<lambda>f. f_line f \<le> 2) (burst_at ''Assets/A.cs'' (splitlines closing_ref_text) 0)"
proof -
  let ?lines = "splitlines closing_ref_text"
  have l: "?lines = [''[BurstCompile]'', ''{ ref int x'', ''ref int y'']" by code_simp
  have h1: "(0::nat) < 1" by simp
  have h2: "1 < length ?lines" by code_simp
  have h3: "(1::nat) < 0 + 20" by simp
  have h4: "rx_search pat_Burst (?lines ! 0) 0 \<noteq> None" by code_simp
  have h5: "\<forall>k. 0 < k \<and> k < (1::nat) \<longrightarrow> \<not> closes (?lines ! k)" by simp
  have h6: "closes (?lines ! 1)" by code_simp
  have h7: "str_in ''ref '' (?lines ! 1)" by code_simp
  have h8: "\<not> suppressed (?lines ! 1)" by code_simp
  have h9: "\<not> str_in ''ref SystemState'' (?lines ! 1)" by code_simp
  have e: "(1::nat) + 1 = 2" by simp
  from closing_line_still_checked [OF refl h1 h2 h3 h4 h5 h6 h7 h8 h9, of "''Assets/A.cs''"]
  have "Finding BurstRef ''Assets/A.cs'' 2 1 msg_BurstRef
          \<in> set (check_BurstRef ''Assets/A.cs'' closing_ref_text)"
    and "list_all (\<lambda>f. f_line f \<le> 2) (burst_at ''Assets/A.cs'' ?lines 0)"
    unfolding e list_all_iff by blast+
  with l h6 h7 show ?thesis by blast
qed

section \<open>Matches of the patterns\<close>

lemma run_len_le: "p + run_len P t p \<le> max p (length t)"
proof -
  have "length (takeWhile P (drop p t)) \<le> length (drop p t)" by (rule length_takeWhile_le)
  then show ?thesis by (simp add: run_len_def)
qed

lemma lit_fits:
  assumes "take (length s) (drop p t) = s" and "p \<le> length t"
  shows "p + length s \<le> length t"
proof -
  from assms(1) have "length s = length (take (length s) (drop p t))" by simp
  then have "length s \<le> length t - p" by simp
  with assms(2) show ?thesis by simp
qed

lemma rx_match_le:
  "(q, h) \<in> set (rx_match r t p g) \<Longrightarrow> p \<le> length t \<Longrightarrow> q \<le> length t"
proof (induction r arbitrary: p g q h)
  case (Lit s)
  then show ?case by (auto split: if_splits dest: lit_fits)
next
  case (Star P)
  then show ?case using run_len_le [of p P t] by auto
next
  case (Plus P)
  then show ?case using run_len_le [of p P t] by auto
next
  case (Seq a b)
  then obtain q' h' where "(q', h') \<in> set (rx_match a t p g)"
    and "(q, h) \<in> set (rx_match b t q' h')" by auto
  with Seq show ?case by blast
qed (auto split: if_splits)

lemma rx_match_consumes:
  "consumes r \<Longrightarrow> (q, h) \<in> set (rx_match r t p g) \<Longrightarrow> p < q"
proof (induction r arbitrary: p g q h)
  case (Lit s)
  then show ?case by (auto split: if_splits)
next
  case (Seq a b)
  from Seq.prems(2) obtain q' h' where a: "(q', h') \<in> set (rx_match a t p g)"
    and b: "(q, h) \<in> set (rx_match b t q' h')" by auto
  from a have pa: "p \<le> q'" by (rule rx_match_mono)
  from b have pb: "q' \<le> q" by (rule rx_match_mono)
  from Seq.prems(1) consider "consumes a" | "consumes b" by auto
  then show ?case
  proof cases
    case 1
    with a Seq.IH(1) have "p < q'" by blast
    with pb show ?thesis by simp
  next
    case 2
    with b Seq.IH(2) have "q' < q" by blast
    with pa show ?thesis by simp
  qed
qed (auto split: if_splits)

lemma finditer_from_member:
  "m \<in> set (finditer_from r t pos) \<Longrightarrow>
     m_start m \<le> length t \<and> (m_end m, m_caps m) \<in> set (rx_match r t (m_start m) [])"
proof (induction r t pos rule: finditer_from.induct)
  case (1 r t pos)
  show ?case
  proof (cases "length t < pos")
    case True
    with "1.prems" show ?thesis by (simp add: finditer_from.simps)
  next
    case False
    show ?thesis
    proof (cases "rx_search r t pos")
      case None
      with False "1.prems" show ?thesis by (simp add: finditer_from.simps)
    next
      case (Some m')
      with False "1.prems" have "m = m' \<or> m \<in> set (finditer_from r t (next_pos m'))"
        by (simp add: finditer_from.simps)
      then show ?thesis
      proof
        assume "m = m'"
        with Some show ?thesis
          using rx_search_bounds(2) search_starts_Some unfolding rx_search_def by blast
      next
        assume "m \<in> set (finditer_from r t (next_pos m'))"
        with "1.IH" [OF False Some] show ?thesis .
      qed
    qed
  qed
qed

lemma match_start_in_text:
  assumes "consumes r" and "m \<in> set (finditer r t)"
  shows "m_start m < length t"
proof -
  from assms(2) have a: "m_start m \<le> length t"
    and b: "(m_end m, m_caps m) \<in> set (rx_match r t (m_start m) [])"
    unfolding finditer_def by (auto dest: finditer_from_member)
  from b a have "m_end m \<le> length t" by (rule rx_match_le)
  moreover from assms(1) b have "m_start m < m_end m" by (rule rx_match_consumes)
  ultimately show ?thesis by simp
qed

lemma consumes_patterns:
  "consumes pat_NativeArray" "consumes pat_Null" "consumes pat_EntityNull"
  "consumes pat_Class" "consumes pat_Burst" "consumes public_type_pattern"
  by (simp_all add: pat_NativeArray_def pat_Null_def pat_EntityNull_def pat_Class_def
        pat_Burst_def public_type_pattern_def)

lemma search_starts_head:
  "search_starts r t ss = Some m \<Longrightarrow>
     \<exists>rest. rx_match r t (m_start m) [] = (m_end m, m_caps m) # rest"
  by (induction ss) (auto split: list.splits)

lemma search_starts_skipped:
  "search_starts r t ss = Some m \<Longrightarrow>
     \<exists>xs zs. ss = xs @ m_start m # zs \<and> (\<forall>x \<in> set xs. rx_match r t x [] = [])"
proof (induction ss)
  case Nil
  then show ?case by simp
next
  case (Cons s ss)
  show ?case
  proof (cases "rx_match r t s []")
    case Nil
    with Cons.prems have "search_starts r t ss = Some m" by simp
    with Cons.IH obtain xs zs where "ss = xs @ m_start m # zs"
      and "\<forall>x \<in> set xs. rx_match r t x [] = []" by blast
    with Nil have "s # ss = (s # xs) @ m_start m # zs \<and> (\<forall>x \<in> set (s # xs). rx_match r t x [] = [])"
      by simp
    then show ?thesis by blast
  next
    case (Cons a list)
    with Cons.prems have "m_start m = s" by (auto split: prod.splits)
    then have "s # ss = [] @ m_start m # ss \<and> (\<forall>x \<in> set []. rx_match r t x [] = [])" by simp
    then show ?thesis by blast
  qed
qed

lemma search_starts_exists:
  "x \<in> set ss \<Longrightarrow> rx_match r t x [] \<noteq> [] \<Longrightarrow> search_starts r t ss \<noteq> None"
  by (induction ss) (auto split: list.splits)

lemma rx_search_least:
  assumes "rx_search r t pos = Some m" and "pos \<le> x" and "x \<le> length t"
    and "rx_match r t x [] \<noteq> []"
  shows "m_start m \<le> x"
proof -
  from assms(1) obtain xs zs where ss: "[pos ..< Suc (length t)] = xs @ m_start m # zs"
    and em: "\<forall>x \<in> set xs. rx_match r t x [] = []"
    unfolding rx_search_def by (blast dest: search_starts_skipped)
  have srt: "sorted (xs @ m_start m # zs)" using ss by (metis sorted_upt)
  from assms(2,3) have "x \<in> set [pos ..< Suc (length t)]" by auto
  with ss have "x \<in> set xs \<or> x = m_start m \<or> x \<in> set zs" by auto
  with em assms(4) have "x = m_start m \<or> x \<in> set zs" by blast
  with srt show ?thesis by (auto simp: sorted_append)
qed

lemma finditer_from_start_ge:
  "m \<in> set (finditer_from r t pos) \<Longrightarrow> pos \<le> m_start m"
proof (induction r t pos rule: finditer_from.induct)
  case (1 r t pos)
  show ?case
  proof (cases "length t < pos")
    case True
    with "1.prems" show ?thesis by (simp add: finditer_from.simps)
  next
    case False
    show ?thesis
    proof (cases "rx_search r t pos")
      case None
      with False "1.prems" show ?thesis by (simp add: finditer_from.simps)
    next
      case (Some m')
      from Some have b: "pos \<le> m_start m'" "m_start m' \<le> m_end m'"
        by (rule rx_search_bounds)+
      then have np: "pos \<le> next_pos m'" by (simp add: next_pos_def)
      from Some False "1.prems" have "m = m' \<or> m \<in> set (finditer_from r t (next_pos m'))"
        by (simp add: finditer_from.simps)
      then show ?thesis
      proof
        assume "m = m'" with b show ?thesis by simp
      next
        assume "m \<in> set (finditer_from r t (next_pos m'))"
        with "1.IH" [OF False Some] np show ?thesis by simp
      qed
    qed
  qed
qed

lemma finditer_from_reaches:
  "rx_match r t s [] = (e, c) # ys \<Longrightarrow> s < e \<Longrightarrow> s \<le> length t \<Longrightarrow>
   \<forall>p < s. \<forall>(q, h) \<in> set (rx_match r t p []). q \<le> s \<Longrightarrow> pos \<le> s \<Longrightarrow>
     \<exists>before. finditer_from r t pos
         = before @ \<lparr>m_start = s, m_end = e, m_caps = c\<rparr> # finditer_from r t e
       \<and> (\<forall>b \<in> set before. m_end b \<le> s)"
proof (induction r t pos rule: finditer_from.induct)
  case (1 r t pos)
  note head = "1.prems"(1) and se = "1.prems"(2) and sl = "1.prems"(3)
    and ns = "1.prems"(4) and ps = "1.prems"(5)
  from ps sl have nl: "\<not> length t < pos" by simp
  from head have ne: "rx_match r t s [] \<noteq> []" by simp
  from ps sl have "s \<in> set [pos ..< Suc (length t)]" by auto
  with ne have "rx_search r t pos \<noteq> None"
    unfolding rx_search_def by (intro search_starts_exists)
  then obtain m where m: "rx_search r t pos = Some m" by blast
  then have least: "m_start m \<le> s" using ps sl ne by (rule rx_search_least)
  from m obtain rest where hd: "rx_match r t (m_start m) [] = (m_end m, m_caps m) # rest"
    unfolding rx_search_def by (blast dest: search_starts_head)
  from m have bounds: "pos \<le> m_start m" "m_start m \<le> m_end m" by (rule rx_search_bounds)+
  from nl m have unf: "finditer_from r t pos = m # finditer_from r t (next_pos m)"
    by (subst finditer_from.simps) simp
  show ?case
  proof (cases "m_start m = s")
    case True
    with hd head have "m_end m = e" "m_caps m = c" by simp_all
    with True have "m = \<lparr>m_start = s, m_end = e, m_caps = c\<rparr>" by (cases m) simp
    moreover from this se have "next_pos m = e" by (simp add: next_pos_def)
    ultimately have "finditer_from r t pos
         = [] @ \<lparr>m_start = s, m_end = e, m_caps = c\<rparr> # finditer_from r t e"
      using unf by simp
    then show ?thesis by (metis empty_iff empty_set)
  next
    case False
    with least have lt: "m_start m < s" by simp
    from hd have "(m_end m, m_caps m) \<in> set (rx_match r t (m_start m) [])" by simp
    with ns lt have me: "m_end m \<le> s" by blast
    with lt bounds have "next_pos m \<le> s" by (simp add: next_pos_def)
    with "1.IH" [OF nl m head se sl ns] obtain before where
      b: "finditer_from r t (next_pos m)
            = before @ \<lparr>m_start = s, m_end = e, m_caps = c\<rparr> # finditer_from r t e"
      and bb: "\<forall>b \<in> set before. m_end b \<le> s" by blast
    from unf b have "finditer_from r t pos
        = (m # before) @ \<lparr>m_start = s, m_end = e, m_caps = c\<rparr> # finditer_from r t e" by simp
    moreover from me bb have "\<forall>b \<in> set (m # before). m_end b \<le> s" by simp
    ultimately show ?thesis by blast
  qed
qed

section \<open>The class-modifier rule\<close>

lemma pat_Class_split: "pat_Class = Seq Bol (Seq (Star is_space) class_rest)"
  by (simp add: pat_Class_def class_rest_def)

lemma anchor_free_class_rest: "anchor_free class_rest"
  by (simp add: class_rest_def)

lemma run_len_shift: "run_len P (pre @ u) (length pre + p) = run_len P u p"
  by (simp add: run_len_def)

lemma rx_match_shift:
  "anchor_free r \<Longrightarrow>
     rx_match r (pre @ u) (length pre + p) (shift_caps (length pre) g)
       = map (shift_res (length pre)) (rx_match r u p g)"
proof (induction r arbitrary: p g)
  case (Seq a b)
  then have a: "rx_match a (pre @ u) (length pre + p) (shift_caps (length pre) g)
       = map (shift_res (length pre)) (rx_match a u p g)"
    and b: "\<And>q h. rx_match b (pre @ u) (length pre + q) (shift_caps (length pre) h)
       = map (shift_res (length pre)) (rx_match b u q h)" by auto
  show ?case
    by (simp add: a map_concat comp_def shift_res_def case_prod_unfold b)
next
  case (Group n a)
  then show ?case by (simp add: shift_res_def shift_caps_def case_prod_unfold comp_def)
qed (auto simp: shift_res_def run_len_shift nth_append comp_def shift_caps_def)

lemma tail_not_word:
  assumes "post = [] \<or> \<not> is_word (hd post)"
  shows "takeWhile is_word post = []"
  using assms by (cases post) auto

lemmas class_eval = class_rest_def rx_match.simps seqs.simps alts.simps run_len_def
  is_space_def is_word_def is_ident_start_def is_upper_def is_lower_def is_digit_def
  upper_letters_def lower_letters_def

lemma rest_public_class_Foo:
  assumes "post = [] \<or> \<not> is_word (hd post)"
  shows "\<exists>xs. rx_match class_rest (''public class Foo'' @ post) 0 []
           = (16, [(6, 13, 16), (1, 0, 6)]) # xs"
  using tail_not_word [OF assms] by (simp add: class_eval)

lemma rest_public_sealed_class_Foo:
  assumes "post = [] \<or> \<not> is_word (hd post)"
  shows "\<exists>xs. rx_match class_rest (''public sealed class Foo'' @ post) 0 []
           = (23, [(6, 20, 23), (3, 7, 14), (1, 0, 6)]) # xs"
  using tail_not_word [OF assms] by (simp add: class_eval)

lemma rest_public_static_class_Foo:
  assumes "post = [] \<or> \<not> is_word (hd post)"
  shows "\<exists>xs. rx_match class_rest (''public static class Foo'' @ post) 0 []
           = (23, [(6, 20, 23), (4, 7, 14), (1, 0, 6)]) # xs"
  using tail_not_word [OF assms] by (simp add: class_eval)

lemma rest_internal_abstract_class_Bar:
  assumes "post = [] \<or> \<not> is_word (hd post)"
  shows "\<exists>xs. rx_match class_rest (''internal abstract class Bar'' @ post) 0 []
           = (27, [(6, 24, 27), (5, 9, 18), (1, 0, 8)]) # xs"
  using tail_not_word [OF assms] by (simp add: class_eval)

lemma class_head:
  assumes bol: "pre = [] \<or> last pre = LF" and wsp: "\<forall>c \<in> set ws. is_space c"
    and dh: "u \<noteq> [] \<and> \<not> is_space (hd u)"
    and head: "rx_match class_rest u 0 [] = (n, c) # xs"
  shows "\<exists>ys. rx_match pat_Class (pre @ ws @ u) (length pre) []
           = (length pre + length ws + n, shift_caps (length pre + length ws) c) # ys"
proof -
  let ?t = "pre @ ws @ u"
  let ?s = "length pre"
  have bolt: "at_bol ?t ?s"
  proof (cases "pre = []")
    case True then show ?thesis by (simp add: at_bol_def)
  next
    case False
    with bol have "last pre = LF" by simp
    with False have "?t ! (?s - 1) = LF" by (simp add: nth_append last_conv_nth)
    then show ?thesis by (simp add: at_bol_def)
  qed
  from dh obtain a us where u: "u = a # us" and a: "\<not> is_space a" by (cases u) auto
  have "takeWhile is_space (ws @ u) = ws"
    using wsp a by (simp add: u takeWhile_append2)
  then have rl: "run_len is_space ?t ?s = length ws" by (simp add: run_len_def)
  have star: "rx_match (Star is_space) ?t ?s []
      = (?s + length ws, []) # map (\<lambda>k. (?s + k, [])) (rev [0 ..< length ws])"
    by (simp add: rl)
  have "rx_match class_rest ((pre @ ws) @ u) (length (pre @ ws) + 0) (shift_caps (length (pre @ ws)) [])
      = map (shift_res (length (pre @ ws))) (rx_match class_rest u 0 [])"
    using anchor_free_class_rest by (rule rx_match_shift)
  with head have rest: "rx_match class_rest ?t (?s + length ws) []
      = (?s + length ws + n, shift_caps (?s + length ws) c) # map (shift_res (?s + length ws)) xs"
    by (simp add: shift_res_def shift_caps_def)
  show ?thesis
    unfolding pat_Class_split using bolt by (simp add: star rest del: rx_match.simps(3))
qed

lemma own_findingsI:
  assumes bol: "pre = [] \<or> last pre = LF" and wsp: "\<forall>c \<in> set ws. is_space c"
    and dh: "decl \<noteq> [] \<and> \<not> is_space (hd decl)"
    and head: "rx_match class_rest (decl @ post) 0 [] = (length decl, c) # xs"
    and ns: "not_swallowed (pre @ ws @ decl @ post) (length pre)"
    and cm: "class_match path (pre @ ws @ decl @ post)
               \<lparr>m_start = length pre, m_end = length pre + length ws + length decl,
                m_caps = shift_caps (length pre + length ws) c\<rparr>
             = map (Finding UnsealedClass path ln 1) msgs"
  shows "own_findings path (pre @ ws @ decl @ post) (length pre)
           (length (pre @ ws @ decl)) msgs"
proof -
  let ?t = "pre @ ws @ decl @ post"
  let ?s = "length pre"
  let ?e = "length pre + length ws + length decl"
  let ?m = "\<lparr>m_start = ?s, m_end = ?e, m_caps = shift_caps (length pre + length ws) c\<rparr>"
  from dh have dh': "decl @ post \<noteq> [] \<and> \<not> is_space (hd (decl @ post))" by simp
  from class_head [OF bol wsp dh' head] obtain ys where
    h: "rx_match pat_Class ?t ?s [] = (?e, shift_caps (length pre + length ws) c) # ys" by blast
  from dh have se: "?s < ?e" by (cases decl) auto
  have sl: "?s \<le> length ?t" by simp
  from ns have ns': "\<forall>p < ?s. \<forall>(q, h) \<in> set (rx_match pat_Class ?t p []). q \<le> ?s"
    by (simp add: not_swallowed_def)
  from finditer_from_reaches [OF h se sl ns', of 0] obtain before where
    f: "finditer pat_Class ?t = before @ ?m # finditer_from pat_Class ?t ?e"
    and b: "\<forall>b \<in> set before. m_end b \<le> ?s"
    unfolding finditer_def by blast
  have a: "\<forall>a \<in> set (finditer_from pat_Class ?t ?e). ?e \<le> m_start a"
    by (blast dest: finditer_from_start_ge)
  have e: "length (pre @ ws @ decl) = ?e" by simp
  have ms: "m_start ?m = ?s" and me: "m_end ?m = ?e" by simp_all
  show ?thesis
    unfolding own_findings_def e
    using f b ms me a cm by (intro exI conjI)
qed

lemmas match_eval = class_match_def group_def shift_caps_def truthy_def fmt_def
  msg_Unsealed_def Let_def

lemma not_space_p: "\<not> is_space CHR ''p''" and not_space_i: "\<not> is_space CHR ''i''"
  by (simp_all add: is_space_def)

text \<open>
  C7, as the code has it. Let the file be \<open>pre @ ws @ decl @ post\<close>, where \<open>pre\<close> is
  empty or ends a line, \<open>ws\<close> is the white space (blank lines, indentation) in front of
  the declaration, \<open>post\<close> is empty or begins with a character that cannot continue the
  name, and no match of the class pattern that starts in \<open>pre\<close> runs into the declaration.
  Then the rule has exactly one match for the declaration, from the end of \<open>pre\<close> to the
  end of the name, every other match lies wholly before or wholly after it, and that
  match yields: for \<open>public class Foo\<close> exactly one finding, with the message
  \<open>class 'Foo' is not sealed.\<close>; for \<open>public sealed class Foo\<close> and for
  \<open>public static class Foo\<close> no finding; for \<open>internal abstract class Bar\<close> exactly one
  finding, with the message \<open>class 'Bar' is not sealed.\<close>
\<close>

theorem class_rule_on_own_line:
  assumes bol: "pre = [] \<or> last pre = LF" and wsp: "\<forall>c \<in> set ws. is_space c"
    and endc: "post = [] \<or> \<not> is_word (hd post)"
    and ns: "not_swallowed (pre @ ws @ decl @ post) (length pre)"
  shows "(decl = ''public class Foo'' \<longrightarrow>
            own_findings path (pre @ ws @ decl @ post) (length pre) (length (pre @ ws @ decl))
              [''class '' @ [CHR 0x27] @ ''Foo'' @ [CHR 0x27] @ '' is not sealed.''])
       \<and> (decl = ''public sealed class Foo'' \<longrightarrow>
            own_findings path (pre @ ws @ decl @ post) (length pre) (length (pre @ ws @ decl)) [])
       \<and> (decl = ''public static class Foo'' \<longrightarrow>
            own_findings path (pre @ ws @ decl @ post) (length pre) (length (pre @ ws @ decl)) [])
       \<and> (decl = ''internal abstract class Bar'' \<longrightarrow>
            own_findings path (pre @ ws @ decl @ post) (length pre) (length (pre @ ws @ decl))
              [''class '' @ [CHR 0x27] @ ''Bar'' @ [CHR 0x27] @ '' is not sealed.''])"
proof (intro conjI impI)
  assume d: "decl = ''public class Foo''"
  from rest_public_class_Foo [OF endc] obtain xs where
    h: "rx_match class_rest (decl @ post) 0 [] = (length decl, [(6, 13, 16), (1, 0, 6)]) # xs"
    unfolding d by auto
  have dh: "decl \<noteq> [] \<and> \<not> is_space (hd decl)" unfolding d using not_space_p by simp
  have cm: "class_match path (pre @ ws @ decl @ post)
               \<lparr>m_start = length pre, m_end = length pre + length ws + length decl,
                m_caps = shift_caps (length pre + length ws) [(6, 13, 16), (1, 0, 6)]\<rparr>
             = map (Finding UnsealedClass path (line_no (pre @ ws @ decl @ post) (length pre)) 1)
                 [''class '' @ [CHR 0x27] @ ''Foo'' @ [CHR 0x27] @ '' is not sealed.'']"
    unfolding d by (simp add: match_eval)
  from own_findingsI [OF bol wsp dh h ns cm]
  show "own_findings path (pre @ ws @ decl @ post) (length pre) (length (pre @ ws @ decl))
              [''class '' @ [CHR 0x27] @ ''Foo'' @ [CHR 0x27] @ '' is not sealed.'']" .
next
  assume d: "decl = ''public sealed class Foo''"
  from rest_public_sealed_class_Foo [OF endc] obtain xs where
    h: "rx_match class_rest (decl @ post) 0 []
          = (length decl, [(6, 20, 23), (3, 7, 14), (1, 0, 6)]) # xs"
    unfolding d by auto
  have dh: "decl \<noteq> [] \<and> \<not> is_space (hd decl)" unfolding d using not_space_p by simp
  have cm: "class_match path (pre @ ws @ decl @ post)
               \<lparr>m_start = length pre, m_end = length pre + length ws + length decl,
                m_caps = shift_caps (length pre + length ws) [(6, 20, 23), (3, 7, 14), (1, 0, 6)]\<rparr>
             = map (Finding UnsealedClass path 0 1) []"
    unfolding d by (simp add: match_eval)
  from own_findingsI [OF bol wsp dh h ns cm]
  show "own_findings path (pre @ ws @ decl @ post) (length pre) (length (pre @ ws @ decl)) []" .
next
  assume d: "decl = ''public static class Foo''"
  from rest_public_static_class_Foo [OF endc] obtain xs where
    h: "rx_match class_rest (decl @ post) 0 []
          = (length decl, [(6, 20, 23), (4, 7, 14), (1, 0, 6)]) # xs"
    unfolding d by auto
  have dh: "decl \<noteq> [] \<and> \<not> is_space (hd decl)" unfolding d using not_space_p by simp
  have cm: "class_match path (pre @ ws @ decl @ post)
               \<lparr>m_start = length pre, m_end = length pre + length ws + length decl,
                m_caps = shift_caps (length pre + length ws) [(6, 20, 23), (4, 7, 14), (1, 0, 6)]\<rparr>
             = map (Finding UnsealedClass path 0 1) []"
    unfolding d by (simp add: match_eval)
  from own_findingsI [OF bol wsp dh h ns cm]
  show "own_findings path (pre @ ws @ decl @ post) (length pre) (length (pre @ ws @ decl)) []" .
next
  assume d: "decl = ''internal abstract class Bar''"
  from rest_internal_abstract_class_Bar [OF endc] obtain xs where
    h: "rx_match class_rest (decl @ post) 0 []
          = (length decl, [(6, 24, 27), (5, 9, 18), (1, 0, 8)]) # xs"
    unfolding d by auto
  have dh: "decl \<noteq> [] \<and> \<not> is_space (hd decl)" unfolding d using not_space_i by simp
  have cm: "class_match path (pre @ ws @ decl @ post)
               \<lparr>m_start = length pre, m_end = length pre + length ws + length decl,
                m_caps = shift_caps (length pre + length ws) [(6, 24, 27), (5, 9, 18), (1, 0, 8)]\<rparr>
             = map (Finding UnsealedClass path (line_no (pre @ ws @ decl @ post) (length pre)) 1)
                 [''class '' @ [CHR 0x27] @ ''Bar'' @ [CHR 0x27] @ '' is not sealed.'']"
    unfolding d by (simp add: match_eval)
  from own_findingsI [OF bol wsp dh h ns cm]
  show "own_findings path (pre @ ws @ decl @ post) (length pre) (length (pre @ ws @ decl))
              [''class '' @ [CHR 0x27] @ ''Bar'' @ [CHR 0x27] @ '' is not sealed.'']" .
qed

theorem class_rule_on_own_line_witness:
  "(bar_pre = [] \<or> last bar_pre = LF)
   \<and> list_all is_space ''  ''
   \<and> (bar_post = [] \<or> \<not> is_word (hd bar_post))
   \<and> not_swallowed (bar_pre @ ''  '' @ ''internal abstract class Bar'' @ bar_post) (length bar_pre)
   \<and> own_findings ''Assets/A.cs'' (bar_pre @ ''  '' @ ''internal abstract class Bar'' @ bar_post)
        9 38 [''class '' @ [CHR 0x27] @ ''Bar'' @ [CHR 0x27] @ '' is not sealed.'']
   \<and> check_SealedClasses ''Assets/A.cs'' (bar_pre @ ''  '' @ ''internal abstract class Bar'' @ bar_post)
       = [Finding UnsealedClass ''Assets/A.cs'' 2 1
            (''class '' @ [CHR 0x27] @ ''Bar'' @ [CHR 0x27] @ '' is not sealed.'')]"
proof -
  let ?t = "bar_pre @ ''  '' @ ''internal abstract class Bar'' @ bar_post"
  have h1: "bar_pre = [] \<or> last bar_pre = LF" by code_simp
  have h2': "list_all is_space ''  ''" by code_simp
  then have h2: "\<forall>c \<in> set ''  ''. is_space c" by (simp only: list_all_iff)
  have h3: "bar_post = [] \<or> \<not> is_word (hd bar_post)" by code_simp
  have h4: "not_swallowed ?t (length bar_pre)" by code_simp
  have l1: "length bar_pre = 9" by code_simp
  have l2: "length (bar_pre @ ''  '' @ ''internal abstract class Bar'') = 38" by code_simp
  have c: "check_SealedClasses ''Assets/A.cs'' ?t
       = [Finding UnsealedClass ''Assets/A.cs'' 2 1
            (''class '' @ [CHR 0x27] @ ''Bar'' @ [CHR 0x27] @ '' is not sealed.'')]" by code_simp
  note th = class_rule_on_own_line [OF h1 h2 h3 h4, of "''Assets/A.cs''"]
  have "own_findings ''Assets/A.cs'' ?t (length bar_pre)
          (length (bar_pre @ ''  '' @ ''internal abstract class Bar''))
          [''class '' @ [CHR 0x27] @ ''Bar'' @ [CHR 0x27] @ '' is not sealed.'']"
    by (rule th [THEN conjunct2, THEN conjunct2, THEN conjunct2, THEN mp, OF refl])
  then have o: "own_findings ''Assets/A.cs'' ?t 9 38
          [''class '' @ [CHR 0x27] @ ''Bar'' @ [CHR 0x27] @ '' is not sealed.'']"
    by (simp only: l1 l2)
  from h1 h2' h3 h4 o c show ?thesis by (intro conjI)
qed

text \<open>
  The claim as stated speaks of any file that contains the declaration. A declaration
  that does not begin its line is not matched at all (the pattern is anchored by \<open>^\<close>),
  and a declaration that follows a line holding only \<open>class\<close> is taken for the name of
  that class: in both files \<open>public class Foo\<close> occurs and no finding names \<open>Foo\<close>.
\<close>

theorem class_declaration_not_at_line_start:
  "str_in ''public class Foo'' attributed_class_text
   \<and> check_SealedClasses ''Assets/A.cs'' attributed_class_text = []
   \<and> str_in ''public class Foo'' swallowed_class_text
   \<and> check_SealedClasses ''Assets/A.cs'' swallowed_class_text
       = [Finding UnsealedClass ''Assets/A.cs'' 1 1
            (''class '' @ [CHR 0x27] @ ''public'' @ [CHR 0x27] @ '' is not sealed.'')]"
proof -
  have a: "str_in ''public class Foo'' attributed_class_text" by code_simp
  have b: "check_SealedClasses ''Assets/A.cs'' attributed_class_text = []" by code_simp
  have c: "str_in ''public class Foo'' swallowed_class_text" by code_simp
  have d: "check_SealedClasses ''Assets/A.cs'' swallowed_class_text
       = [Finding UnsealedClass ''Assets/A.cs'' 1 1
            (''class '' @ [CHR 0x27] @ ''public'' @ [CHR 0x27] @ '' is not sealed.'')]" by code_simp
  from a b c d show ?thesis by blast
qed

section \<open>The lines of a text\<close>

lemma count_nl_append:
  "count_nl (xs @ ys) idx = count_nl xs idx + count_nl ys (idx - length xs)"
  by (simp add: count_nl_def)

lemma count_nl_no_break:
  assumes "\<forall>c \<in> set xs. \<not> is_linebreak c"
  shows "count_nl xs idx = 0"
proof -
  have "is_linebreak LF" by (simp add: is_linebreak_def)
  with assms have "LF \<notin> set xs" by blast
  then have "LF \<notin> set (take idx xs)" by (meson in_set_takeD)
  then show ?thesis by (auto simp: count_nl_def filter_empty_conv)
qed

lemma count_nl_Cons:
  "count_nl (c # cs) (Suc d) = (if c = LF then 1 else 0) + count_nl cs d"
  by (simp add: count_nl_def)

lemma count_nl_0: "count_nl s 0 = 0"
  by (simp add: count_nl_def)

lemma count_nl_lt_lines:
  "idx < length s \<Longrightarrow> count_nl s idx < length (splitlines s)"
proof (induction s arbitrary: idx rule: splitlines.induct)
  case (1 s)
  let ?l = "takeWhile (\<lambda>c. \<not> is_linebreak c) s"
  let ?r = "dropWhile (\<lambda>c. \<not> is_linebreak c) s"
  from "1.prems" have ne: "s \<noteq> []" by auto
  then have sl: "splitlines s = ?l # splitlines (skip_sep ?r)"
    by (subst splitlines.simps) simp
  have s: "s = ?l @ ?r" by simp
  have nb: "\<forall>c \<in> set ?l. \<not> is_linebreak c" by (auto dest: set_takeWhileD)
  have cnt: "count_nl s idx = count_nl ?r (idx - length ?l)"
    using count_nl_append [of ?l ?r idx] count_nl_no_break [OF nb, of idx] by simp
  show ?case
  proof (cases "idx - length ?l")
    case 0
    with cnt sl show ?thesis by (simp add: count_nl_0)
  next
    case (Suc d)
    then have "length ?l < idx" by simp
    with "1.prems" have "?r \<noteq> []"
      by (metis append_Nil2 s not_less_iff_gr_or_eq)
    then obtain c cs where r: "?r = c # cs" by (cases ?r) auto
    have "length s = length ?l + length ?r" by (metis s length_append)
    with "1.prems" Suc r have d: "d < length cs" by simp
    show ?thesis
    proof (cases "c = CR \<and> take 1 cs = [LF]")
      case True
      then obtain cs' where cs: "cs = LF # cs'" by (cases cs) auto
      with True r have sk: "skip_sep ?r = cs'" by (simp add: skip_sep_def)
      have c1: "count_nl s idx = count_nl (LF # cs') d"
        using cnt Suc r cs True by (simp add: count_nl_Cons)
      show ?thesis
      proof (cases d)
        case 0
        with c1 sl show ?thesis by (simp add: count_nl_0)
      next
        case (Suc e)
        with d cs have "e < length (skip_sep ?r)" by (simp add: sk)
        with "1.IH" [OF ne] have "count_nl (skip_sep ?r) e < length (splitlines (skip_sep ?r))" .
        with c1 Suc sl sk show ?thesis by (simp add: count_nl_Cons)
      qed
    next
      case False
      with r have sk: "skip_sep ?r = cs" by (auto simp: skip_sep_def)
      from d "1.IH" [OF ne, of d] have "count_nl cs d < length (splitlines cs)" by (simp add: sk)
      moreover have "count_nl s idx \<le> 1 + count_nl cs d"
        using cnt Suc r by (simp add: count_nl_Cons)
      ultimately show ?thesis using sl sk by simp
    qed
  qed
qed

lemma line_no_valid:
  "idx < length t \<Longrightarrow> 1 \<le> line_no t idx \<and> line_no t idx \<le> length (splitlines t)"
  using count_nl_lt_lines [of idx t] by (simp add: line_no_def)

lemma line_no_pos: "1 \<le> line_no text idx"
  by (simp add: line_no_def)

text \<open>
  In a text whose only line boundary is LF, the rows of \<open>text.splitlines()\<close> are the
  lines as LF delimits them: before a position that starts a line lie exactly the rows
  counted by the LF before it, each followed by its LF (\<open>lf_rows_prefix\<close>), and the row
  with that number is the line starting there (\<open>lf_row_at\<close>). For a candidate of the
  documentation rule whose match holds no LF, the row the code takes for the declaration
  line therefore begins with the matched declaration (\<open>candidate_rows\<close>).
\<close>

lemma linebreak_LF: "is_linebreak LF"
  by (simp add: is_linebreak_def)

lemma lf_step:
  assumes lf: "lf_only s" and bol: "at_bol s idx" and pos: "0 < idx" and le: "idx \<le> length s"
  shows "\<exists>l cs. s = l @ LF # cs \<and> (\<forall>c \<in> set l. c \<noteq> LF) \<and> length l < idx
           \<and> skip_sep (dropWhile (\<lambda>c. \<not> is_linebreak c) s) = cs
           \<and> splitlines s = l # splitlines cs \<and> lf_only cs
           \<and> at_bol cs (idx - length l - 1)"
proof -
  let ?l = "takeWhile (\<lambda>c. \<not> is_linebreak c) s"
  let ?r = "dropWhile (\<lambda>c. \<not> is_linebreak c) s"
  from pos le have ne: "s \<noteq> []" by auto
  from bol pos have at: "s ! (idx - 1) = LF" by (simp add: at_bol_def)
  have s: "s = ?l @ ?r" by simp
  have nb: "\<forall>c \<in> set ?l. \<not> is_linebreak c" by (auto dest: set_takeWhileD)
  have ll: "length ?l < idx"
  proof (rule ccontr)
    assume "\<not> length ?l < idx"
    with pos have "idx - 1 < length ?l" by simp
    then have "s ! (idx - 1) = ?l ! (idx - 1)" by (metis s nth_append)
    with \<open>idx - 1 < length ?l\<close> have "s ! (idx - 1) \<in> set ?l" by simp
    with nb at linebreak_LF show False by auto
  qed
  have "length s = length ?l + length ?r" by (metis s length_append)
  have "?r \<noteq> []"
  proof
    assume "?r = []"
    then have "length ?r = 0" by (simp only: list.size)
    with \<open>length s = length ?l + length ?r\<close> ll le show False by linarith
  qed
  then obtain c cs where r: "?r = c # cs" by (cases ?r) auto
  then have "is_linebreak c" by (metis hd_dropWhile list.sel(1) \<open>?r \<noteq> []\<close>)
  moreover have "c \<in> set s" by (metis r s in_set_conv_decomp)
  ultimately have c: "c = LF" using lf by (simp add: lf_only_def)
  with r have sk: "skip_sep ?r = cs" by (simp add: skip_sep_def)
  from s r c have dec: "s = ?l @ LF # cs" by simp
  from ne sk have sl: "splitlines s = ?l # splitlines cs"
    by (subst splitlines.simps) simp
  have "set cs \<subseteq> set s" by (metis dec set_append set_subset_Cons le_supI2)
  with lf have lfc: "lf_only cs" by (auto simp: lf_only_def)
  have nl: "\<forall>c \<in> set ?l. c \<noteq> LF" using nb linebreak_LF by auto
  have "at_bol cs (idx - length ?l - 1)"
  proof (cases "idx - length ?l - 1 = 0")
    case True then show ?thesis by (simp add: at_bol_def)
  next
    case False
    then have i: "idx - 1 = length ?l + 1 + (idx - length ?l - 1 - 1)" using ll by simp
    have "s ! (idx - 1) = cs ! (idx - length ?l - 1 - 1)"
      by (subst dec, subst i) (simp add: nth_append)
    moreover have "idx - length ?l - 1 \<le> length cs"
      using le \<open>length s = length ?l + length ?r\<close> r by simp
    ultimately show ?thesis using at by (simp add: at_bol_def)
  qed
  with dec nl ll sk sl lfc show ?thesis by blast
qed

lemma lf_rows_prefix:
  "lf_only s \<Longrightarrow> at_bol s idx \<Longrightarrow> idx \<le> length s \<Longrightarrow>
     take idx s = concat (map (\<lambda>l. l @ [LF]) (take (count_nl s idx) (splitlines s)))"
proof (induction s arbitrary: idx rule: splitlines.induct)
  case (1 s)
  show ?case
  proof (cases "idx = 0")
    case True
    then show ?thesis by (simp add: count_nl_0)
  next
    case False
    then have pos: "0 < idx" by simp
    from lf_step [OF "1.prems"(1,2) pos "1.prems"(3)] obtain l cs where
      dec: "s = l @ LF # cs" and nl: "\<forall>c \<in> set l. c \<noteq> LF" and ll: "length l < idx"
      and sk: "skip_sep (dropWhile (\<lambda>c. \<not> is_linebreak c) s) = cs"
      and sl: "splitlines s = l # splitlines cs" and lfc: "lf_only cs"
      and bolc: "at_bol cs (idx - length l - 1)" by blast
    from dec have ne: "s \<noteq> []" by simp
    let ?i = "idx - length l - 1"
    from "1.prems"(3) dec ll have le: "?i \<le> length cs" by simp
    from "1.IH" [OF ne, unfolded sk, OF lfc bolc le]
    have ih: "take ?i cs = concat (map (\<lambda>l. l @ [LF]) (take (count_nl cs ?i) (splitlines cs)))" .
    from ll have idx: "idx = length l + Suc ?i" by simp
    have tk: "take idx s = l @ LF # take ?i cs"
      by (subst dec, subst idx) simp
    have "filter (\<lambda>c. c = LF) l = []" using nl by (simp add: filter_empty_conv)
    then have cnt: "count_nl s idx = Suc (count_nl cs ?i)"
      unfolding count_nl_def tk by simp
    show ?thesis unfolding tk cnt sl using ih by simp
  qed
qed

lemma lf_row_at:
  "lf_only s \<Longrightarrow> at_bol s idx \<Longrightarrow> idx < length s \<Longrightarrow>
     splitlines s ! count_nl s idx = takeWhile (\<lambda>c. c \<noteq> LF) (drop idx s)"
proof (induction s arbitrary: idx rule: splitlines.induct)
  case (1 s)
  from "1.prems"(3) have ne: "s \<noteq> []" by auto
  show ?case
  proof (cases "idx = 0")
    case True
    have "takeWhile (\<lambda>c. \<not> is_linebreak c) s = takeWhile (\<lambda>c. c \<noteq> LF) s"
      using "1.prems"(1) linebreak_LF by (intro takeWhile_cong) (auto simp: lf_only_def)
    with ne True show ?thesis
      by (subst splitlines.simps) (simp add: count_nl_0)
  next
    case False
    then have pos: "0 < idx" by simp
    from "1.prems"(3) have le0: "idx \<le> length s" by simp
    from lf_step [OF "1.prems"(1,2) pos le0] obtain l cs where
      dec: "s = l @ LF # cs" and nl: "\<forall>c \<in> set l. c \<noteq> LF" and ll: "length l < idx"
      and sk: "skip_sep (dropWhile (\<lambda>c. \<not> is_linebreak c) s) = cs"
      and sl: "splitlines s = l # splitlines cs" and lfc: "lf_only cs"
      and bolc: "at_bol cs (idx - length l - 1)" by blast
    let ?i = "idx - length l - 1"
    from "1.prems"(3) dec ll have lt: "?i < length cs" by simp
    from "1.IH" [OF ne, unfolded sk, OF lfc bolc lt]
    have ih: "splitlines cs ! count_nl cs ?i = takeWhile (\<lambda>c. c \<noteq> LF) (drop ?i cs)" .
    from ll have idx: "idx = length l + Suc ?i" by simp
    have tk: "take idx s = l @ LF # take ?i cs"
      by (subst dec, subst idx) simp
    have dr: "drop idx s = drop ?i cs"
      by (subst dec, subst idx) simp
    have "filter (\<lambda>c. c = LF) l = []" using nl by (simp add: filter_empty_conv)
    then have cnt: "count_nl s idx = Suc (count_nl cs ?i)"
      unfolding count_nl_def tk by simp
    show ?thesis unfolding cnt sl dr using ih by simp
  qed
qed

lemma seq_bol_start: "(q, h) \<in> set (rx_match (Seq Bol r) t p g) \<Longrightarrow> at_bol t p"
  by (auto split: if_splits)

lemma public_type_anchored: "\<exists>r. public_type_pattern = Seq Bol r"
  by (simp add: public_type_pattern_def)

lemma candidate_at_bol:
  assumes "m \<in> set (finditer public_type_pattern t)"
  shows "at_bol t (m_start m)"
proof -
  from assms have a: "(m_end m, m_caps m) \<in> set (rx_match public_type_pattern t (m_start m) [])"
    unfolding finditer_def by (auto dest: finditer_from_member)
  obtain r where e: "public_type_pattern = Seq Bol r"
    using public_type_anchored by blast
  from a have "(m_end m, m_caps m) \<in> set (rx_match (Seq Bol r) t (m_start m) [])"
    by (simp only: e)
  then show ?thesis by (rule seq_bol_start)
qed

lemma take_takeWhile_all:
  "\<forall>x \<in> set (take n xs). P x \<Longrightarrow> take n (takeWhile P xs) = take n xs"
proof (induction xs arbitrary: n)
  case Nil
  then show ?case by simp
next
  case (Cons x xs)
  then show ?case by (cases n) auto
qed

lemma candidate_rows:
  assumes cand: "m \<in> set (finditer public_type_pattern t)"
    and lf: "lf_only t"
    and own: "LF \<notin> set (matched t m)"
  shows "take (m_start m) t
           = concat (map (\<lambda>l. l @ [LF]) (take (line_no t (m_start m) - 1) (splitlines t)))"
    and "startswith (splitlines t ! (line_no t (m_start m) - 1)) (matched t m)"
proof -
  from cand have bol: "at_bol t (m_start m)" by (rule candidate_at_bol)
  from cand have lt: "m_start m < length t"
    by (rule match_start_in_text [OF consumes_patterns(6)])
  from lf bol lt show "take (m_start m) t
           = concat (map (\<lambda>l. l @ [LF]) (take (line_no t (m_start m) - 1) (splitlines t)))"
    using lf_rows_prefix [of t "m_start m"] by (simp add: line_no_def)
  from lf bol lt have row: "splitlines t ! (line_no t (m_start m) - 1)
      = takeWhile (\<lambda>c. c \<noteq> LF) (drop (m_start m) t)"
    using lf_row_at [of t "m_start m"] by (simp add: line_no_def)
  from cand have "m_start m \<le> length t \<and> (m_end m, m_caps m) \<in> set (rx_match public_type_pattern t (m_start m) [])"
    unfolding finditer_def by (auto dest: finditer_from_member)
  then have me: "m_end m \<le> length t" by (auto dest: rx_match_le)
  let ?n = "m_end m - m_start m"
  from own have "\<forall>x \<in> set (take ?n (drop (m_start m) t)). x \<noteq> LF"
    by (auto simp: matched_def)
  then have "take ?n (takeWhile (\<lambda>c. c \<noteq> LF) (drop (m_start m) t)) = take ?n (drop (m_start m) t)"
    by (rule take_takeWhile_all)
  moreover from me have "length (matched t m) = ?n" by (simp add: matched_def)
  ultimately show "startswith (splitlines t ! (line_no t (m_start m) - 1)) (matched t m)"
    unfolding row startswith_def by (simp add: matched_def)
qed

section \<open>Substrings, stripping and the story marker\<close>

lemma startswith_iff: "startswith s p \<longleftrightarrow> (\<exists>ss. s = p @ ss)"
proof
  assume "startswith s p"
  then have "s = p @ drop (length p) s"
    unfolding startswith_def by (metis append_take_drop_id)
  then show "\<exists>ss. s = p @ ss" ..
next
  assume "\<exists>ss. s = p @ ss"
  then show "startswith s p" by (auto simp: startswith_def)
qed

lemma str_in_iff: "str_in sub t \<longleftrightarrow> (\<exists>ps ss. t = ps @ sub @ ss)"
proof (induction t)
  case Nil
  show ?case by (auto simp: str_in_def)
next
  case (Cons c cs)
  have ih: "str_find sub cs \<noteq> None \<longleftrightarrow> (\<exists>ps ss. cs = ps @ sub @ ss)"
    using Cons.IH by (simp add: str_in_def)
  show ?case
  proof
    assume "str_in sub (c # cs)"
    then consider "startswith (c # cs) sub" | "str_find sub cs \<noteq> None"
      by (auto simp: str_in_def split: if_splits)
    then show "\<exists>ps ss. c # cs = ps @ sub @ ss"
    proof cases
      case 1
      then obtain ss where "c # cs = sub @ ss" unfolding startswith_iff ..
      then have "c # cs = [] @ sub @ ss" by simp
      then show ?thesis by blast
    next
      case 2
      with ih obtain ps ss where "cs = ps @ sub @ ss" by blast
      then have "c # cs = (c # ps) @ sub @ ss" by simp
      then show ?thesis by blast
    qed
  next
    assume "\<exists>ps ss. c # cs = ps @ sub @ ss"
    then obtain ps ss where e: "c # cs = ps @ sub @ ss" by blast
    show "str_in sub (c # cs)"
    proof (cases ps)
      case Nil
      with e have "startswith (c # cs) sub" unfolding startswith_iff by auto
      then show ?thesis by (simp add: str_in_def)
    next
      case (Cons d ps')
      with e have "cs = ps' @ sub @ ss" by simp
      with ih have "str_find sub cs \<noteq> None" by blast
      then show ?thesis by (auto simp: str_in_def)
    qed
  qed
qed

lemma rstrip_keeps:
  assumes "\<not> is_space y"
  shows "rstrip (xs @ y # zs) = xs @ y # rstrip zs"
proof -
  have "dropWhile is_space (rev zs @ y # rev xs) = dropWhile is_space (rev zs) @ y # rev xs"
    using assms by (rule dropWhile_append3)
  then show ?thesis by (simp add: rstrip_def)
qed

lemma lower_Story: "lower ''Story:'' = ''story:''"
  by code_simp

lemma colon_not_space: "\<not> is_space CHR '':''"
  by code_simp

lemma story_marker_found:
  assumes "str_in ''Story:'' (lstrip l)"
  shows "\<exists>idx. str_find ''story:'' (lower (strip l)) = Some idx"
proof -
  from assms obtain ps ss where e: "lstrip l = ps @ ''Story:'' @ ss"
    unfolding str_in_iff by blast
  then have "lstrip l = (ps @ ''Story'') @ CHR '':'' # ss" by simp
  then have "strip l = (ps @ ''Story'') @ CHR '':'' # rstrip ss"
    unfolding strip_def by (simp only: rstrip_keeps [OF colon_not_space])
  then have "strip l = ps @ ''Story:'' @ rstrip ss" by simp
  then have "lower (strip l) = lower ps @ lower ''Story:'' @ lower (rstrip ss)"
    by (simp add: lower_def)
  then have "str_in ''story:'' (lower (strip l))"
    unfolding str_in_iff lower_Story by blast
  then show ?thesis by (simp add: str_in_def)
qed

section \<open>The documentation-comment rule\<close>

lemma story_not_transparent: "is_story_line l \<Longrightarrow> \<not> is_transparent l"
  by (auto simp: is_story_line_def is_transparent_def startswith_iff)

lemma story_scan_iff:
  "story_scan lines ln prev = Some k \<longleftrightarrow>
     int k \<le> prev \<and> ln - int k \<le> 6 \<and> is_story_line (lines ! k)
     \<and> (\<forall>j. k < j \<and> int j \<le> prev \<longrightarrow> is_transparent (lines ! j))"
proof (induction lines ln prev arbitrary: k rule: story_scan.induct)
  case (1 lines ln prev)
  let ?R = "\<lambda>prev. int k \<le> prev \<and> ln - int k \<le> 6 \<and> is_story_line (lines ! k)
     \<and> (\<forall>j. k < j \<and> int j \<le> prev \<longrightarrow> is_transparent (lines ! j))"
  show ?case
  proof (cases "0 \<le> prev \<and> ln - prev \<le> 6")
    case False
    then have "story_scan lines ln prev = None"
      by (subst story_scan.simps) (simp only: if_False)
    moreover from False have "\<not> ?R prev" by auto
    ultimately show ?thesis by simp
  next
    case True
    let ?P = "nat prev"
    from True have P: "int ?P = prev" by simp
    show ?thesis
    proof (cases "is_transparent (lines ! ?P)")
      case tr: True
      then have "story_scan lines ln prev = story_scan lines ln (prev - 1)"
        using True by (subst story_scan.simps) (auto simp: is_transparent_def Let_def)
      also have "\<dots> = Some k \<longleftrightarrow> ?R (prev - 1)"
        using tr True "1.IH" [of "lstrip (lines ! ?P)" k]
        by (auto simp: is_transparent_def)
      also have "?R (prev - 1) \<longleftrightarrow> ?R prev"
      proof
        assume r: "?R (prev - 1)"
        have "is_transparent (lines ! j)" if "k < j" "int j \<le> prev" for j
        proof (cases "j = ?P")
          case True with tr show ?thesis by simp
        next
          case False
          with that P have "int j \<le> prev - 1" by linarith
          with r that show ?thesis by blast
        qed
        with r show "?R prev" by auto
      next
        assume r: "?R prev"
        then have "k \<noteq> ?P" using tr story_not_transparent by blast
        with r P have "int k \<le> prev - 1" by linarith
        with r show "?R (prev - 1)" by auto
      qed
      finally show ?thesis .
    next
      case ntr: False
      show ?thesis
      proof (cases "is_story_line (lines ! ?P)")
        case st: True
        then have "story_scan lines ln prev = Some ?P"
          using True ntr by (subst story_scan.simps) (auto simp: is_transparent_def is_story_line_def Let_def)
        moreover have "?R prev \<longleftrightarrow> k = ?P"
        proof
          assume r: "?R prev"
          show "k = ?P"
          proof (rule ccontr)
            assume "k \<noteq> ?P"
            with r P have "k < ?P" by linarith
            with r P have "is_transparent (lines ! ?P)" by auto
            with ntr show False ..
          qed
        next
          assume "k = ?P"
          with st True P show "?R prev" by auto
        qed
        ultimately show ?thesis by auto
      next
        case nst: False
        then have "story_scan lines ln prev = None"
          using True ntr by (subst story_scan.simps) (auto simp: is_transparent_def is_story_line_def Let_def)
        moreover have "\<not> ?R prev"
        proof
          assume r: "?R prev"
          show False
          proof (cases "k = ?P")
            case True with r nst show False by simp
          next
            case False
            with r P have "k < ?P" by linarith
            with r P have "is_transparent (lines ! ?P)" by auto
            with ntr show False ..
          qed
        qed
        ultimately show ?thesis by simp
      qed
    qed
  qed
qed

lemma story_scan_rows:
  "story_scan lines (int ln) (int ln - 2) = Some k \<longleftrightarrow>
     k + 2 \<le> ln \<and> ln \<le> k + 6 \<and> is_story_line (lines ! k)
     \<and> (\<forall>j. k < j \<and> j + 2 \<le> ln \<longrightarrow> is_transparent (lines ! j))"
proof -
  have "(\<forall>j. k < j \<and> int j \<le> int ln - 2 \<longrightarrow> is_transparent (lines ! j))
        \<longleftrightarrow> (\<forall>j. k < j \<and> j + 2 \<le> ln \<longrightarrow> is_transparent (lines ! j))"
    by (intro iff_allI) (metis (no_types, opaque_lifting) add.commute le_diff_eq of_nat_add of_nat_le_iff of_nat_numeral)
  moreover have "int k \<le> int ln - 2 \<longleftrightarrow> k + 2 \<le> ln" by linarith
  moreover have "int ln - int k \<le> 6 \<longleftrightarrow> ln \<le> k + 6" by linarith
  ultimately show ?thesis unfolding story_scan_iff by simp
qed

lemma msg_Story_differ: "msg_Story_short \<noteq> msg_Story_missing"
  by code_simp

lemma story_short_cases:
  "story_short path lines k = [] \<or> story_short path lines k = [Finding Story path (k + 1) 1 msg_Story_short]"
  by (auto simp: story_short_def Let_def split: option.splits)

lemma story_scan_story_line:
  "story_scan lines ln prev = Some k \<Longrightarrow> is_story_line (lines ! k)"
  by (simp add: story_scan_iff)

lemma lookahead_iff:
  "lookahead lines ks \<longleftrightarrow> (\<exists>k \<in> set ks. any_in interesting_tokens (lines ! (k - 1)))"
  by (induction ks) auto

lemma story_found_rows:
  assumes "lines = splitlines text" and "ln = line_no text (m_start m)"
  shows "story_found text m \<longleftrightarrow>
           any_in interesting_tokens (case group text m 4 of None \<Rightarrow> [] | Some r \<Rightarrow> r)
           \<or> (\<exists>i. ln - 1 \<le> i \<and> i \<le> ln + 1 \<and> i < length lines
                 \<and> any_in interesting_tokens (lines ! i))"
proof -
  have ln: "1 \<le> ln" using assms line_no_pos by simp
  have "(\<exists>k \<in> set [ln ..< min (length lines) (ln - 1 + 3) + 1].
            any_in interesting_tokens (lines ! (k - 1)))
        \<longleftrightarrow> (\<exists>i. ln - 1 \<le> i \<and> i \<le> ln + 1 \<and> i < length lines
                 \<and> any_in interesting_tokens (lines ! i))" (is "?L \<longleftrightarrow> ?R")
  proof
    assume ?L
    then obtain k where "k \<in> set [ln ..< min (length lines) (ln - 1 + 3) + 1]"
      and t: "any_in interesting_tokens (lines ! (k - 1))" by blast
    then have k: "ln \<le> k" "k < min (length lines) (ln - 1 + 3) + 1"
      by (simp_all only: set_upt atLeastLessThan_iff)
    from k ln have "ln - 1 \<le> k - 1 \<and> k - 1 \<le> ln + 1 \<and> k - 1 < length lines" by auto
    with t show ?R by blast
  next
    assume ?R
    then obtain i where i: "ln - 1 \<le> i" "i \<le> ln + 1" "i < length lines"
      and t: "any_in interesting_tokens (lines ! i)" by blast
    from i ln have "ln \<le> Suc i \<and> Suc i < min (length lines) (ln - 1 + 3) + 1" by auto
    then have "Suc i \<in> set [ln ..< min (length lines) (ln - 1 + 3) + 1]"
      by (simp only: set_upt atLeastLessThan_iff)
    with t show ?L by (metis diff_Suc_1)
  qed
  then show ?thesis
    using assms by (auto simp: story_found_def Let_def lookahead_iff)
qed

text \<open>
  C4. For a candidate that is interesting and not suppressed, in a file under an
  \<open>/Editor/\<close> path with the exemption flag set: when the backward scan finds no story
  line, nothing is reported; when it finds one at index \<open>k\<close>, the marker \<open>story:\<close> is
  found in the lower-cased, stripped line, and if the stripped text after it is shorter
  than 20 characters the too-short finding is reported at line \<open>k + 1\<close>, the exemption
  notwithstanding (and nothing is reported when it has 20 characters or more).
\<close>

theorem exempt_missing_but_short_flagged:
  assumes "lines = splitlines text" and "ln = line_no text (m_start m)"
    and found: "story_found text m"
    and ns: "\<not> suppressed (lines ! (ln - 1))"
    and ex: "ExemptEditorNullChecks cfg" "in_editor path"
  shows "(story_scan lines (int ln) (int ln - 2) = None \<longrightarrow> story_match cfg path text m = [])
    \<and> (\<forall>k. story_scan lines (int ln) (int ln - 2) = Some k \<longrightarrow>
          (\<exists>idx. str_find ''story:'' (lower (strip (lines ! k))) = Some idx
             \<and> (length (strip (drop (idx + length ''story:'') (strip (lines ! k)))) < 20 \<longrightarrow>
                  story_match cfg path text m = [Finding Story path (k + 1) 1 msg_Story_short])
             \<and> (20 \<le> length (strip (drop (idx + length ''story:'') (strip (lines ! k)))) \<longrightarrow>
                  story_match cfg path text m = [])))"
proof (intro conjI allI impI)
  assume "story_scan lines (int ln) (int ln - 2) = None"
  with assms show "story_match cfg path text m = []"
    by (simp add: story_match_def Let_def)
next
  fix k
  assume s: "story_scan lines (int ln) (int ln - 2) = Some k"
  then have "is_story_line (lines ! k)" by (rule story_scan_story_line)
  then have "str_in ''Story:'' (lstrip (lines ! k))" by (simp add: is_story_line_def)
  then obtain idx where idx: "str_find ''story:'' (lower (strip (lines ! k))) = Some idx"
    using story_marker_found by blast
  from s assms have m: "story_match cfg path text m = story_short path lines k"
    by (simp add: story_match_def Let_def)
  have a: "length (strip (drop (idx + length ''story:'') (strip (lines ! k)))) < 20 \<longrightarrow>
                  story_match cfg path text m = [Finding Story path (k + 1) 1 msg_Story_short]"
    unfolding m using idx by (simp add: story_short_def Let_def)
  have b: "20 \<le> length (strip (drop (idx + length ''story:'') (strip (lines ! k)))) \<longrightarrow>
                  story_match cfg path text m = []"
    unfolding m using idx by (simp add: story_short_def Let_def)
  from idx a b show "\<exists>idx. str_find ''story:'' (lower (strip (lines ! k))) = Some idx
             \<and> (length (strip (drop (idx + length ''story:'') (strip (lines ! k)))) < 20 \<longrightarrow>
                  story_match cfg path text m = [Finding Story path (k + 1) 1 msg_Story_short])
             \<and> (20 \<le> length (strip (drop (idx + length ''story:'') (strip (lines ! k)))) \<longrightarrow>
                  story_match cfg path text m = [])" by blast
qed

theorem exempt_missing_but_short_flagged_witness:
  "finditer public_type_pattern short_story_text = [short_story_match]
   \<and> story_found short_story_text short_story_match
   \<and> ExemptEditorNullChecks default_cfg
   \<and> in_editor ''Assets/Editor/A.cs''
   \<and> story_scan (splitlines short_story_text) 2 0 = Some 0
   \<and> story_match default_cfg ''Assets/Editor/A.cs'' short_story_text short_story_match
       = [Finding Story ''Assets/Editor/A.cs'' 1 1 msg_Story_short]"
proof -
  let ?lines = "splitlines short_story_text"
  let ?ln = "line_no short_story_text (m_start short_story_match)"
  have m: "finditer public_type_pattern short_story_text = [short_story_match]" by code_simp
  have found: "story_found short_story_text short_story_match" by code_simp
  have ns: "\<not> suppressed (?lines ! (?ln - 1))" by code_simp
  have e1: "ExemptEditorNullChecks default_cfg" by code_simp
  have e2: "in_editor ''Assets/Editor/A.cs''" by code_simp
  have sc: "story_scan ?lines (int ?ln) (int ?ln - 2) = Some 0" by code_simp
  have sc': "story_scan ?lines 2 0 = Some 0" by code_simp
  have idx: "str_find ''story:'' (lower (strip (?lines ! 0))) = Some 3" by code_simp
  have len: "length (strip (drop (3 + length ''story:'') (strip (?lines ! 0)))) < 20" by code_simp
  from exempt_missing_but_short_flagged [OF refl refl found ns e1 e2] sc
  obtain i where "str_find ''story:'' (lower (strip (?lines ! 0))) = Some i"
    and "length (strip (drop (i + length ''story:'') (strip (?lines ! 0)))) < 20 \<longrightarrow>
           story_match default_cfg ''Assets/Editor/A.cs'' short_story_text short_story_match
             = [Finding Story ''Assets/Editor/A.cs'' (0 + 1) 1 msg_Story_short]"
    by blast
  with idx len have "story_match default_cfg ''Assets/Editor/A.cs'' short_story_text short_story_match
             = [Finding Story ''Assets/Editor/A.cs'' 1 1 msg_Story_short]" by simp
  with m found e1 e2 sc' show ?thesis by blast
qed

text \<open>
  C5, with the marker matched case-sensitively. Take a candidate whose match lies on one
  line of a text with LF as its only line boundary, so that the rows above row
  \<open>ln - 1\<close> are the lines above the declaration (first two conjuncts). Let row \<open>k\<close> be the
  first non-blank, non-attribute line above the declaration, and let the backward scan
  reach it (its condition \<open>ln - prev <= 6\<close> holds at \<open>prev = k\<close>). Then the scan accepts row
  \<open>k\<close> as the documentation line if and only if its left-stripped text starts with
  \<open>//\<close> and contains \<open>Story:\<close> in exactly this capitalisation; and when it is accepted,
  no missing-documentation finding is reported for the candidate.
\<close>

theorem story_line_accepted_case_sensitive:
  assumes lines: "lines = splitlines text" and ln: "ln = line_no text (m_start m)"
    and cand: "m \<in> set (finditer public_type_pattern text)"
    and lf: "lf_only text"
    and own: "LF \<notin> set (matched text m)"
    and above: "k + 2 \<le> ln"
    and nt: "\<not> is_transparent (lines ! k)"
    and between: "\<forall>j. k < j \<and> j + 2 \<le> ln \<longrightarrow> is_transparent (lines ! j)"
    and reach: "ln \<le> k + 6"
  shows "take (m_start m) text = concat (map (\<lambda>l. l @ [LF]) (take (ln - 1) lines))
       \<and> startswith (lines ! (ln - 1)) (matched text m)
       \<and> (story_scan lines (int ln) (int ln - 2) = Some k \<longleftrightarrow> is_story_line (lines ! k))
       \<and> (story_scan lines (int ln) (int ln - 2) = Some k \<longrightarrow>
            (\<forall>f \<in> set (story_match cfg path text m). f_msg f \<noteq> msg_Story_missing))"
proof (intro conjI)
  show "take (m_start m) text = concat (map (\<lambda>l. l @ [LF]) (take (ln - 1) lines))"
    unfolding lines ln using cand lf own by (rule candidate_rows(1))
  show "startswith (lines ! (ln - 1)) (matched text m)"
    unfolding lines ln using cand lf own by (rule candidate_rows(2))
  show "story_scan lines (int ln) (int ln - 2) = Some k \<longleftrightarrow> is_story_line (lines ! k)"
    unfolding story_scan_rows using above between reach by blast
  show "story_scan lines (int ln) (int ln - 2) = Some k \<longrightarrow>
            (\<forall>f \<in> set (story_match cfg path text m). f_msg f \<noteq> msg_Story_missing)"
  proof
    assume s: "story_scan lines (int ln) (int ln - 2) = Some k"
    have "story_match cfg path text m = [] \<or> story_match cfg path text m = story_short path lines k"
      using s lines ln by (auto simp: story_match_def Let_def)
    with story_short_cases [of path lines k] msg_Story_differ
    show "\<forall>f \<in> set (story_match cfg path text m). f_msg f \<noteq> msg_Story_missing"
      by auto
  qed
qed

theorem story_line_accepted_case_sensitive_witness:
  "short_story_match \<in> set (finditer public_type_pattern short_story_text)
   \<and> lf_only short_story_text
   \<and> LF \<notin> set (matched short_story_text short_story_match)
   \<and> line_no short_story_text (m_start short_story_match) = 2
   \<and> \<not> is_transparent (splitlines short_story_text ! 0)
   \<and> is_story_line (splitlines short_story_text ! 0)
   \<and> story_scan (splitlines short_story_text)
        (int (line_no short_story_text (m_start short_story_match)))
        (int (line_no short_story_text (m_start short_story_match)) - 2) = Some 0"
proof -
  let ?lines = "splitlines short_story_text"
  let ?ln = "line_no short_story_text (m_start short_story_match)"
  have f: "finditer public_type_pattern short_story_text = [short_story_match]" by code_simp
  then have cand: "short_story_match \<in> set (finditer public_type_pattern short_story_text)"
    by (simp only: list.set insertI1)
  have lf: "lf_only short_story_text" by code_simp
  have own: "LF \<notin> set (matched short_story_text short_story_match)" by code_simp
  have lnv: "?ln = 2" by code_simp
  have above: "0 + 2 \<le> ?ln" unfolding lnv by simp
  have nt: "\<not> is_transparent (?lines ! 0)" by code_simp
  have between: "\<forall>j. 0 < j \<and> j + 2 \<le> ?ln \<longrightarrow> is_transparent (?lines ! j)"
    unfolding lnv by simp
  have reach: "?ln \<le> 0 + 6" unfolding lnv by simp
  have s: "is_story_line (?lines ! 0)" by code_simp
  note th = story_line_accepted_case_sensitive
    [OF refl refl cand lf own above nt between reach, of _ "''Assets/A.cs''"]
  from th [THEN conjunct2, THEN conjunct2, THEN conjunct1] s
  have "story_scan ?lines (int ?ln) (int ?ln - 2) = Some 0" by (rule iffD2)
  with cand lf own lnv nt s show ?thesis by (intro conjI)
qed

text \<open>
  The claim as stated asks for a case-insensitive match of the marker. A comment line
  \<open>// story: ...\<close> directly above the declaration meets the specification's test, yet
  the scan does not accept it and the missing-documentation finding is reported.
\<close>

theorem lowercase_story_not_accepted:
  "finditer public_type_pattern lowercase_story_text = [lowercase_story_match]
   \<and> lf_only lowercase_story_text
   \<and> LF \<notin> set (matched lowercase_story_text lowercase_story_match)
   \<and> splitlines lowercase_story_text =
     [''// story: a sufficiently long description here'', ''public struct FooSystem : ISystem'']
   \<and> spec_doc_line (splitlines lowercase_story_text ! 0)
   \<and> story_scan (splitlines lowercase_story_text) 2 0 = None
   \<and> check_StoryComments default_cfg ''Assets/A.cs'' lowercase_story_text
       = [Finding Story ''Assets/A.cs'' 2 1 msg_Story_missing]"
proof -
  have m: "finditer public_type_pattern lowercase_story_text = [lowercase_story_match]"
    by code_simp
  have lf: "lf_only lowercase_story_text" by code_simp
  have own: "LF \<notin> set (matched lowercase_story_text lowercase_story_match)" by code_simp
  have a: "splitlines lowercase_story_text =
     [''// story: a sufficiently long description here'', ''public struct FooSystem : ISystem'']"
    by code_simp
  have b: "spec_doc_line (splitlines lowercase_story_text ! 0)" by code_simp
  have c: "story_scan (splitlines lowercase_story_text) 2 0 = None" by code_simp
  have d: "check_StoryComments default_cfg ''Assets/A.cs'' lowercase_story_text
       = [Finding Story ''Assets/A.cs'' 2 1 msg_Story_missing]" by code_simp
  from m lf own a b c d show ?thesis by (intro conjI)
qed

text \<open>
  C6, with two following lines. Take a candidate whose match lies on one line of a text
  with LF as its only line boundary, so that row \<open>ln - 1\<close> is the declaration line and
  rows \<open>ln\<close> and \<open>ln + 1\<close> are the two lines that follow it, and let any marker token on
  the declaration line lie in its remainder (group 4). Then the candidate is interesting
  if and only if the remainder of the declaration line holds a marker token, or one of
  the two lines immediately following the declaration line holds one.
\<close>

theorem interesting_two_following_lines:
  assumes lines: "lines = splitlines text" and ln: "ln = line_no text (m_start m)"
    and cand: "m \<in> set (finditer public_type_pattern text)"
    and lf: "lf_only text"
    and own: "LF \<notin> set (matched text m)"
    and name: "any_in interesting_tokens (lines ! (ln - 1)) \<longrightarrow>
               any_in interesting_tokens (case group text m 4 of None \<Rightarrow> [] | Some r \<Rightarrow> r)"
  shows "take (m_start m) text = concat (map (\<lambda>l. l @ [LF]) (take (ln - 1) lines))
       \<and> startswith (lines ! (ln - 1)) (matched text m)
       \<and> (story_found text m \<longleftrightarrow>
            any_in interesting_tokens (case group text m 4 of None \<Rightarrow> [] | Some r \<Rightarrow> r)
            \<or> (\<exists>i. ln \<le> i \<and> i \<le> ln + 1 \<and> i < length lines
                  \<and> any_in interesting_tokens (lines ! i)))"
proof (intro conjI)
  show "take (m_start m) text = concat (map (\<lambda>l. l @ [LF]) (take (ln - 1) lines))"
    unfolding lines ln using cand lf own by (rule candidate_rows(1))
  show "startswith (lines ! (ln - 1)) (matched text m)"
    unfolding lines ln using cand lf own by (rule candidate_rows(2))
  let ?rem = "any_in interesting_tokens (case group text m 4 of None \<Rightarrow> [] | Some r \<Rightarrow> r)"
  have pos: "1 \<le> ln" using ln line_no_pos by simp
  have "(\<exists>i. ln - 1 \<le> i \<and> i \<le> ln + 1 \<and> i < length lines \<and> any_in interesting_tokens (lines ! i))
        \<longrightarrow> ?rem \<or> (\<exists>i. ln \<le> i \<and> i \<le> ln + 1 \<and> i < length lines
                  \<and> any_in interesting_tokens (lines ! i))"
  proof
    assume "\<exists>i. ln - 1 \<le> i \<and> i \<le> ln + 1 \<and> i < length lines \<and> any_in interesting_tokens (lines ! i)"
    then obtain i where i: "ln - 1 \<le> i" "i \<le> ln + 1" "i < length lines"
      and t: "any_in interesting_tokens (lines ! i)" by blast
    show "?rem \<or> (\<exists>i. ln \<le> i \<and> i \<le> ln + 1 \<and> i < length lines
                  \<and> any_in interesting_tokens (lines ! i))"
    proof (cases "i = ln - 1")
      case True
      with t name show ?thesis by simp
    next
      case False
      with i pos have "ln \<le> i" by simp
      with i t show ?thesis by blast
    qed
  qed
  moreover have "(\<exists>i. ln \<le> i \<and> i \<le> ln + 1 \<and> i < length lines \<and> any_in interesting_tokens (lines ! i))
        \<longrightarrow> (\<exists>i. ln - 1 \<le> i \<and> i \<le> ln + 1 \<and> i < length lines \<and> any_in interesting_tokens (lines ! i))"
    by (metis diff_le_self le_trans)
  ultimately show "story_found text m \<longleftrightarrow> ?rem
            \<or> (\<exists>i. ln \<le> i \<and> i \<le> ln + 1 \<and> i < length lines
                  \<and> any_in interesting_tokens (lines ! i))"
    unfolding story_found_rows [OF lines ln] by blast
qed

theorem interesting_two_following_lines_witness:
  "foo_decl_match \<in> set (finditer public_type_pattern near_token_text)
   \<and> lf_only near_token_text
   \<and> LF \<notin> set (matched near_token_text foo_decl_match)
   \<and> line_no near_token_text (m_start foo_decl_match) = 1
   \<and> splitlines near_token_text = [''public struct Foo'', [], '': ISystem'']
   \<and> \<not> any_in interesting_tokens (splitlines near_token_text ! 0)
   \<and> any_in interesting_tokens (splitlines near_token_text ! 2)
   \<and> story_found near_token_text foo_decl_match"
proof -
  let ?lines = "splitlines near_token_text"
  let ?ln = "line_no near_token_text (m_start foo_decl_match)"
  have f: "finditer public_type_pattern near_token_text = [foo_decl_match]" by code_simp
  then have cand: "foo_decl_match \<in> set (finditer public_type_pattern near_token_text)"
    by (simp only: list.set insertI1)
  have lf: "lf_only near_token_text" by code_simp
  have own: "LF \<notin> set (matched near_token_text foo_decl_match)" by code_simp
  have lnv: "?ln = 1" by code_simp
  have rows: "?lines = [''public struct Foo'', [], '': ISystem'']" by code_simp
  have n0: "\<not> any_in interesting_tokens (?lines ! (?ln - 1))" by code_simp
  have n0': "\<not> any_in interesting_tokens (?lines ! 0)" by code_simp
  from n0 have name: "any_in interesting_tokens (?lines ! (?ln - 1)) \<longrightarrow>
      any_in interesting_tokens (case group near_token_text foo_decl_match 4 of None \<Rightarrow> [] | Some r \<Rightarrow> r)"
    by blast
  have t: "any_in interesting_tokens (?lines ! 2)" by code_simp
  have r: "?ln \<le> 2 \<and> 2 \<le> ?ln + 1 \<and> 2 < length ?lines" by code_simp
  from t r have ex: "\<exists>i. ?ln \<le> i \<and> i \<le> ?ln + 1 \<and> i < length ?lines
     \<and> any_in interesting_tokens (?lines ! i)" by blast
  note th = interesting_two_following_lines [OF refl refl cand lf own name]
  from th [THEN conjunct2, THEN conjunct2] ex
  have "story_found near_token_text foo_decl_match" by blast
  with cand lf own lnv rows n0' t show ?thesis by (intro conjI)
qed

text \<open>
  The claim as stated looks at the three lines that follow the declaration line. A
  token on the third following line makes the candidate interesting in the
  specification's sense, but the code does not look that far and reports nothing.
\<close>

theorem third_following_line_not_examined:
  "finditer public_type_pattern far_token_text = [foo_decl_match]
   \<and> lf_only far_token_text
   \<and> LF \<notin> set (matched far_token_text foo_decl_match)
   \<and> splitlines far_token_text = [''public struct Foo'', [], [], '': ISystem'']
   \<and> \<not> any_in interesting_tokens (splitlines far_token_text ! 0)
   \<and> spec_interesting far_token_text foo_decl_match
   \<and> \<not> story_found far_token_text foo_decl_match
   \<and> check_StoryComments default_cfg ''Assets/A.cs'' far_token_text = []"
proof -
  have a: "finditer public_type_pattern far_token_text = [foo_decl_match]" by code_simp
  have lf: "lf_only far_token_text" by code_simp
  have own: "LF \<notin> set (matched far_token_text foo_decl_match)" by code_simp
  have b: "splitlines far_token_text = [''public struct Foo'', [], [], '': ISystem'']" by code_simp
  have n: "\<not> any_in interesting_tokens (splitlines far_token_text ! 0)" by code_simp
  have c: "spec_interesting far_token_text foo_decl_match" by code_simp
  have d: "\<not> story_found far_token_text foo_decl_match" by code_simp
  have e: "check_StoryComments default_cfg ''Assets/A.cs'' far_token_text = []" by code_simp
  from a lf own b n c d e show ?thesis by (intro conjI)
qed

section \<open>Line numbers of the findings\<close>

lemma match_line_valid:
  assumes "consumes r" and "m \<in> set (finditer r t)"
  shows "1 \<le> line_no t (m_start m) \<and> line_no t (m_start m) \<le> length (splitlines t)"
  using assms by (intro line_no_valid match_start_in_text)

lemma match_line_index:
  assumes "consumes r" and "m \<in> set (finditer r t)"
  shows "line_no t (m_start m) - 1 < length (splitlines t)"
  using match_line_valid [OF assms] by arith

text \<open>
  The reads by index of the model are the reads of the source, and each is in range, so
  that no \<open>IndexError\<close> can end a scan: \<open>text.splitlines()[ln - 1]\<close> by
  \<open>match_line_index\<close>, \<open>lines[k - 1]\<close> of the lookahead, \<open>lines[prev]\<close> of the backward
  scan and \<open>lines[j]\<close> of the window by the three lemmas below.
\<close>

lemma lookahead_index_in_range:
  "1 \<le> ln \<Longrightarrow> k \<in> set [ln ..< min (length lines) (ln - 1 + 3) + 1] \<Longrightarrow> k - 1 < length lines"
  by (simp only: set_upt atLeastLessThan_iff) arith

lemma story_scan_index_in_range:
  "ln \<le> length lines \<Longrightarrow> 0 \<le> prev \<Longrightarrow> prev \<le> int ln - 2 \<Longrightarrow> nat prev < length lines"
  by arith

lemma window_index_in_range:
  "j \<in> set [i + 1 ..< min (length lines) (i + 20)] \<Longrightarrow> j < length lines"
  by simp

lemma valid_NativeArray: "f \<in> set (check_NativeArray path t) \<Longrightarrow> line_valid t f"
  using match_line_valid [OF consumes_patterns(1)]
  by (auto simp: check_NativeArray_def line_valid_def split: if_splits)

lemma valid_Nulls: "f \<in> set (check_Nulls cfg path t) \<Longrightarrow> line_valid t f"
  using match_line_valid [OF consumes_patterns(2)]
  by (auto simp: check_Nulls_def null_match_def Let_def line_valid_def split: if_splits)

lemma valid_EntityNull: "f \<in> set (check_EntityNull path t) \<Longrightarrow> line_valid t f"
  using match_line_valid [OF consumes_patterns(3)]
  by (auto simp: check_EntityNull_def entity_null_match_def Let_def line_valid_def split: if_splits)

lemma valid_SealedClasses: "f \<in> set (check_SealedClasses path t) \<Longrightarrow> line_valid t f"
  using match_line_valid [OF consumes_patterns(4)]
  by (auto simp: check_SealedClasses_def class_match_def Let_def line_valid_def split: if_splits)

lemma valid_BurstRef:
  assumes "f \<in> set (check_BurstRef path t)"
  shows "line_valid t f"
proof -
  let ?lines = "splitlines t"
  from assms obtain i where "f \<in> set (burst_at path ?lines i)"
    by (auto simp: check_BurstRef_def Let_def)
  then have "f \<in> set (burst_loop path ?lines [i + 1 ..< min (length ?lines) (i + 20)])"
    by (auto simp: burst_at_def Let_def split: if_splits)
  then obtain j where "j \<in> set [i + 1 ..< min (length ?lines) (i + 20)]"
    and f: "f = Finding BurstRef path (j + 1) 1 msg_BurstRef"
    by (blast dest: burst_loop_lines)
  then have "j < length ?lines" by simp
  with f show ?thesis by (simp add: line_valid_def)
qed

lemma valid_StoryComments:
  assumes "f \<in> set (check_StoryComments cfg path t)"
  shows "line_valid t f"
proof -
  let ?lines = "splitlines t"
  from assms obtain m where m: "m \<in> set (finditer public_type_pattern t)"
    and f: "f \<in> set (story_match cfg path t m)"
    by (auto simp: check_StoryComments_def)
  let ?ln = "line_no t (m_start m)"
  from m have ln: "1 \<le> ?ln \<and> ?ln \<le> length ?lines"
    by (rule match_line_valid [OF consumes_patterns(6)])
  show ?thesis
  proof (cases "story_scan ?lines (int ?ln) (int ?ln - 2)")
    case None
    with f have "f = Finding Story path ?ln (col_no t (m_start m)) msg_Story_missing"
      by (auto simp: story_match_def Let_def split: if_splits)
    with ln show ?thesis by (simp add: line_valid_def)
  next
    case (Some k)
    then have "int k \<le> int ?ln - 2" by (simp add: story_scan_iff)
    with ln have k: "k + 1 \<le> length ?lines" by linarith
    from f Some have "f \<in> set (story_short path ?lines k)"
      by (auto simp: story_match_def Let_def split: if_splits)
    with story_short_cases [of path ?lines k]
    have "f = Finding Story path (k + 1) 1 msg_Story_short" by auto
    with k show ?thesis by (simp add: line_valid_def)
  qed
qed

text \<open>
  C9. Every finding that any rule reports on a text carries a line number \<open>l\<close> with
  \<open>1 \<le> l \<le> len (text.splitlines())\<close>. For the pattern rules the number is one more
  than the count of LF before the start of the match, and a match starts inside the
  text because each pattern takes at least one character; the window rule and the
  too-short finding number a line of \<open>text.splitlines()\<close> directly.
\<close>

theorem finding_lines_valid:
  "\<forall>f \<in> set (scan_text cfg path t). line_valid t f"
  by (auto simp: scan_text_def split: if_splits
      dest: valid_NativeArray valid_Nulls valid_SealedClasses valid_EntityNull
        valid_BurstRef valid_StoryComments)

theorem finding_lines_valid_witness:
  "scan_text default_cfg ''Assets/A.cs'' mixed_text =
     [Finding NativeArray ''Assets/A.cs'' 1 1 msg_NativeArray,
      Finding Null ''Assets/A.cs'' 2 3 msg_Null,
      Finding UnsealedClass ''Assets/A.cs'' 3 1 (msg_Unsealed ''Foo'')]
   \<and> length (splitlines mixed_text) = 3
   \<and> list_all (line_valid mixed_text) (scan_text default_cfg ''Assets/A.cs'' mixed_text)"
proof -
  have a: "scan_text default_cfg ''Assets/A.cs'' mixed_text =
     [Finding NativeArray ''Assets/A.cs'' 1 1 msg_NativeArray,
      Finding Null ''Assets/A.cs'' 2 3 msg_Null,
      Finding UnsealedClass ''Assets/A.cs'' 3 1 (msg_Unsealed ''Foo'')]" by code_simp
  have b: "length (splitlines mixed_text) = 3" by code_simp
  from finding_lines_valid [of default_cfg "''Assets/A.cs''" mixed_text]
  have "list_all (line_valid mixed_text) (scan_text default_cfg ''Assets/A.cs'' mixed_text)"
    unfolding list_all_iff .
  with a b show ?thesis by blast
qed

end
